theory Spec2Isabelle
  imports Main "HOL-Library.Word" "HOL-Library.Monad_Syntax"
begin

section \<open>Machine integers, exceptions and outcomes\<close>

text \<open>
  \<^verbatim>\<open>size_t\<close> is modelled as a 64-bit word: addition, subtraction and multiplication
  wrap around, as unsigned arithmetic does in the source.
\<close>

type_synonym size_t = "64 word"

text \<open>
  The exceptions of the program: \<^verbatim>\<open>std::bad_alloc\<close>, thrown by the arena when a request
  does not fit (the out-of-capacity error), and an exception thrown by the constructor of
  the payload type.
\<close>

datatype exn = bad_alloc | payload_exn

text \<open>
  A call either returns a result and the new state, or throws an exception and leaves a
  state behind (the one a \<^verbatim>\<open>catch\<close> block sees), or has undefined behaviour
  (a precondition violation: a modulo by zero, a dereference of a dead object, a sentinel
  used as a payload node).
\<close>

datatype ('r, 's) outcome = Returns 'r 's | Throws exn 's | Undefined

section \<open>The arena: \<^verbatim>\<open>StackStorage<N>\<close>\<close>

text \<open>
  The bytes of the buffer carry no information for the properties below; a pointer
  \<^verbatim>\<open>buffer_ + k\<close> is represented by the index \<open>k\<close>, and its address is computed
  from the address of \<^verbatim>\<open>buffer_\<close> where the address matters.
\<close>

record StackStorage =
  start_index :: size_t

definition StackStorage_init :: StackStorage where
  "StackStorage_init = \<lparr>start_index = 0\<rparr>"

text \<open>
  \<^verbatim>\<open>char* allocate(size_t count, size_t alignment)\<close>, lines 18-28. The capacity \<open>N\<close>
  is the template parameter. \<^verbatim>\<open>x % 0\<close> is undefined behaviour.
\<close>

definition allocate ::
  "size_t \<Rightarrow> size_t \<Rightarrow> size_t \<Rightarrow> StackStorage \<Rightarrow> (size_t, StackStorage) outcome" where
  "allocate N count alignment st =
     (if alignment = 0 then Undefined
      else
        let at_start = start_index st;
            st1 = st\<lparr>start_index := start_index st + count\<rparr>;
            st2 = st1\<lparr>start_index :=
                    start_index st1 + (alignment - start_index st1 mod alignment) mod alignment\<rparr>;
            at_end = start_index st2
        in if at_end \<ge> N
           then Throws bad_alloc (st2\<lparr>start_index := at_start\<rparr>)
           else Returns (start_index st2 - count) st2)"




section \<open>The allocator adaptor: \<^verbatim>\<open>StackAllocator<T, N>\<close>\<close>

text \<open>
  An adaptor holds a pointer to an arena; arenas are objects in a store, and the pointer is
  the arena's identity. The element type is a phantom parameter.
\<close>

type_synonym storage_ptr = nat

datatype 'T StackAllocator = StackAllocator (stack_storage: storage_ptr)

definition get_storage :: "'T StackAllocator \<Rightarrow> storage_ptr" where
  "get_storage a = stack_storage a"

text \<open>\<^verbatim>\<open>StackAllocator(StackStorage<N>&)\<close>, lines 47-48.\<close>

definition StackAllocator_of_storage :: "storage_ptr \<Rightarrow> 'T StackAllocator" where
  "StackAllocator_of_storage s = StackAllocator s"

text \<open>The converting constructor from \<^verbatim>\<open>StackAllocator<U, N>\<close>, lines 50-52.\<close>

definition StackAllocator_convert :: "'U StackAllocator \<Rightarrow> 'T StackAllocator" where
  "StackAllocator_convert other = StackAllocator (stack_storage other)"

text \<open>\<^verbatim>\<open>operator==\<close> and \<^verbatim>\<open>operator!=\<close>, lines 69-77.\<close>

definition StackAllocator_eq :: "'T StackAllocator \<Rightarrow> 'U StackAllocator \<Rightarrow> bool" where
  "StackAllocator_eq a other = (get_storage a = get_storage other)"

definition StackAllocator_neq :: "'T StackAllocator \<Rightarrow> 'U StackAllocator \<Rightarrow> bool" where
  "StackAllocator_neq a other = (get_storage a \<noteq> get_storage other)"

text \<open>
  \<^verbatim>\<open>T* allocate(size_t count)\<close>, lines 54-57, over the store of arenas.
  \<open>sizeof_T\<close> and \<open>alignof_T\<close> are the constants of the element type. A pointer to no
  arena is undefined behaviour.
\<close>

definition StackAllocator_allocate ::
  "size_t \<Rightarrow> size_t \<Rightarrow> size_t \<Rightarrow> 'T StackAllocator \<Rightarrow> size_t
     \<Rightarrow> (storage_ptr \<rightharpoonup> StackStorage) \<Rightarrow> (size_t, storage_ptr \<rightharpoonup> StackStorage) outcome" where
  "StackAllocator_allocate N sizeof_T alignof_T a count stores =
     (case stores (stack_storage a) of
        None \<Rightarrow> Undefined
      | Some st \<Rightarrow>
          (case allocate N (count * sizeof_T) alignof_T st of
             Undefined \<Rightarrow> Undefined
           | Throws e st' \<Rightarrow> Throws e (stores(stack_storage a \<mapsto> st'))
           | Returns p st' \<Rightarrow> Returns p (stores(stack_storage a \<mapsto> st'))))"

subsection \<open>Addresses\<close>





section \<open>The list: \<^verbatim>\<open>List<T, StackAllocator<T, N>>\<close>\<close>

subsection \<open>Objects and the store\<close>

text \<open>
  A \<^verbatim>\<open>BaseNode*\<close> is null, the address of the member \<^verbatim>\<open>head_\<close> of a List object
  (the sentinel), or the address \<^verbatim>\<open>buffer_ + k\<close> of a node inside an arena.
\<close>

datatype ptr = Null | Head nat | Cell storage_ptr size_t

text \<open>
  \<^verbatim>\<open>BaseNode\<close> and \<^verbatim>\<open>Node\<close> (lines 88-105): the two links, and the payload, which
  only a \<^verbatim>\<open>Node\<close> has.
\<close>

record 'a node =
  node_next :: ptr
  node_prev :: ptr
  node_value :: "'a option"

text \<open>
  The data members of a List object other than \<^verbatim>\<open>head_\<close>, which lives in the store of
  nodes at the address \<open>Head i\<close>: the \<^verbatim>\<open>Alloc\<close> base, \<^verbatim>\<open>size_\<close> and
  \<^verbatim>\<open>node_allocator_\<close> (lines 337-339).
\<close>

record 'a List =
  alloc :: "'a StackAllocator"
  size_field :: size_t
  node_allocator :: "'a node StackAllocator"

text \<open>
  The store: the arenas, the live nodes and sentinels, the live List objects, and the next
  free slot for a local List object. Two components are not program state. \<open>outstanding\<close>
  records the pointers obtained from \<^verbatim>\<open>allocate\<close> and not yet passed to
  \<^verbatim>\<open>deallocate\<close> (which is a no-op on the arena, lines 59-62). \<open>ctor_outcomes\<close> is the
  environment of the payload type: whether each of the coming payload constructions throws
  (\<open>True\<close>); when it is exhausted, constructions succeed.
\<close>

record 'a world =
  storages :: "storage_ptr \<rightharpoonup> StackStorage"
  nodes :: "ptr \<rightharpoonup> 'a node"
  lists :: "nat \<rightharpoonup> 'a List"
  stack_top :: nat
  outstanding :: "ptr list"
  ctor_outcomes :: "bool list"

text \<open>
  The compile-time constants: the capacity \<open>N\<close>, \<^verbatim>\<open>sizeof(Node)\<close>,
  \<^verbatim>\<open>alignof(Node)\<close>, the value of a value-initialised \<open>T\<close>, and
  \<^verbatim>\<open>propagate_on_container_copy_assignment\<close>.
\<close>

record 'a layout =
  capacity :: size_t
  sizeof_Node :: size_t
  alignof_Node :: size_t
  default_T :: 'a
  propagate_on_copy_assignment :: bool

subsection \<open>Field access through pointers\<close>

definition get_next :: "'a world \<Rightarrow> ptr \<Rightarrow> ptr option" where
  "get_next w p = map_option node_next (nodes w p)"

definition get_prev :: "'a world \<Rightarrow> ptr \<Rightarrow> ptr option" where
  "get_prev w p = map_option node_prev (nodes w p)"

definition set_next :: "ptr \<Rightarrow> ptr \<Rightarrow> 'a world \<Rightarrow> 'a world option" where
  "set_next p q w =
     (case nodes w p of
        None \<Rightarrow> None
      | Some n \<Rightarrow> Some (w\<lparr>nodes := (nodes w)(p \<mapsto> n\<lparr>node_next := q\<rparr>)\<rparr>))"

definition set_prev :: "ptr \<Rightarrow> ptr \<Rightarrow> 'a world \<Rightarrow> 'a world option" where
  "set_prev p q w =
     (case nodes w p of
        None \<Rightarrow> None
      | Some n \<Rightarrow> Some (w\<lparr>nodes := (nodes w)(p \<mapsto> n\<lparr>node_prev := q\<rparr>)\<rparr>))"

text \<open>A step that is undefined behaviour when the pointer it follows is dead.\<close>

definition defined :: "'s option \<Rightarrow> (unit, 's) outcome" where
  "defined r = (case r of None \<Rightarrow> Undefined | Some s \<Rightarrow> Returns () s)"

subsection \<open>The node allocator\<close>

text \<open>
  \<^verbatim>\<open>NodeAllocTraits::allocate(node_allocator_, 1)\<close>: the adaptor's \<^verbatim>\<open>allocate(1)\<close>
  for the element type \<^verbatim>\<open>Node\<close>.
\<close>

definition node_allocate ::
  "'a layout \<Rightarrow> 'a node StackAllocator \<Rightarrow> 'a world \<Rightarrow> (ptr, 'a world) outcome" where
  "node_allocate L a w =
     (case StackAllocator_allocate (capacity L) (sizeof_Node L) (alignof_Node L) a 1 (storages w) of
        Undefined \<Rightarrow> Undefined
      | Throws e stores' \<Rightarrow> Throws e (w\<lparr>storages := stores'\<rparr>)
      | Returns k stores' \<Rightarrow>
          Returns (Cell (stack_storage a) k)
            (w\<lparr>storages := stores',
               outstanding := Cell (stack_storage a) k # outstanding w\<rparr>))"

text \<open>\<^verbatim>\<open>NodeAllocTraits::deallocate(node_allocator_, p, 1)\<close>.\<close>

definition node_deallocate :: "ptr \<Rightarrow> 'a world \<Rightarrow> 'a world" where
  "node_deallocate p w = w\<lparr>outstanding := remove1 p (outstanding w)\<rparr>"

text \<open>
  \<^verbatim>\<open>NodeAllocTraits::construct(node_allocator_, p, args...)\<close>: \<^verbatim>\<open>Node(const T&)\<close> for
  \<open>Some v\<close>, the value-initialising \<^verbatim>\<open>Node()\<close> for \<open>None\<close>. The links of the new
  node are null (lines 89-90).
\<close>

definition node_construct ::
  "'a layout \<Rightarrow> ptr \<Rightarrow> 'a option \<Rightarrow> 'a world \<Rightarrow> (unit, 'a world) outcome" where
  "node_construct L p arg w =
     (let throws = (case ctor_outcomes w of [] \<Rightarrow> False | b # bs \<Rightarrow> b);
          w1 = w\<lparr>ctor_outcomes := tl (ctor_outcomes w)\<rparr>
      in if throws then Throws payload_exn w1
         else Returns ()
           (w1\<lparr>nodes := (nodes w1)(p \<mapsto>
              \<lparr>node_next = Null, node_prev = Null,
               node_value = Some (case arg of None \<Rightarrow> default_T L | Some v \<Rightarrow> v)\<rparr>)\<rparr>))"

text \<open>
  \<^verbatim>\<open>NodeAllocTraits::destroy(node_allocator_, static_cast<Node*>(p))\<close>: the pointer must
  be to a live \<^verbatim>\<open>Node\<close>; a sentinel is not one.
\<close>

definition node_destroy :: "ptr \<Rightarrow> 'a world \<Rightarrow> 'a world option" where
  "node_destroy p w =
     (case nodes w p of
        None \<Rightarrow> None
      | Some n \<Rightarrow>
          (case node_value n of
             None \<Rightarrow> None
           | Some v \<Rightarrow> Some (w\<lparr>nodes := (nodes w)(p := None)\<rparr>)))"

subsection \<open>Iterators\<close>

text \<open>
  An iterator is its \<^verbatim>\<open>node_\<close> pointer. \<^verbatim>\<open>begin()\<close> is \<^verbatim>\<open>head_.next\<close>,
  \<^verbatim>\<open>end()\<close> is \<^verbatim>\<open>&head_\<close> (lines 171-181); \<^verbatim>\<open>operator++\<close> and \<^verbatim>\<open>operator--\<close>
  follow \<^verbatim>\<open>next\<close> and \<^verbatim>\<open>prev\<close> (lines 133-141); \<^verbatim>\<open>operator*\<close> reads the payload of
  a \<^verbatim>\<open>Node\<close> (line 129).
\<close>

definition List_begin :: "'a world \<Rightarrow> nat \<Rightarrow> ptr option" where
  "List_begin w this = get_next w (Head this)"

definition List_end :: "nat \<Rightarrow> ptr" where
  "List_end this = Head this"

definition iter_incr :: "'a world \<Rightarrow> ptr \<Rightarrow> ptr option" where
  "iter_incr w it = get_next w it"

definition iter_decr :: "'a world \<Rightarrow> ptr \<Rightarrow> ptr option" where
  "iter_decr w it = get_prev w it"

definition iter_deref :: "'a world \<Rightarrow> ptr \<Rightarrow> 'a option" where
  "iter_deref w it = Option.bind (nodes w it) node_value"

text \<open>\<^verbatim>\<open>size()\<close>, line 264.\<close>

definition List_size :: "'a world \<Rightarrow> nat \<Rightarrow> size_t option" where
  "List_size w this = map_option size_field (lists w this)"

subsection \<open>Insertion and removal\<close>

text \<open>
  The splice of \<^verbatim>\<open>InsertHelper\<close>, lines 312-317, one assignment after the other.
\<close>

definition link_node :: "ptr \<Rightarrow> ptr \<Rightarrow> 'a world \<Rightarrow> 'a world option" where
  "link_node it new_node w =
     do {
       prev \<leftarrow> get_prev w it;
       let next = it;
       w1 \<leftarrow> set_prev new_node prev w;
       w2 \<leftarrow> set_next new_node next w1;
       w3 \<leftarrow> set_prev next new_node w2;
       set_next prev new_node w3
     }"

text \<open>
  \<^verbatim>\<open>InsertHelper(const_iterator it, Args&&... args)\<close>, lines 296-319. The busy-wait is
  compiled out: \<^verbatim>\<open>StackAllocator\<close> derives from \<^verbatim>\<open>do_not_slow\<close>.
\<close>

definition InsertHelper ::
  "'a layout \<Rightarrow> nat \<Rightarrow> ptr \<Rightarrow> 'a option \<Rightarrow> 'a world \<Rightarrow> (unit, 'a world) outcome" where
  "InsertHelper L this it arg w =
     (case lists w this of
        None \<Rightarrow> Undefined
      | Some l \<Rightarrow>
          (case node_allocate L (node_allocator l) w of
             Undefined \<Rightarrow> Undefined
           | Throws e w1 \<Rightarrow> Throws e w1
           | Returns new_node w1 \<Rightarrow>
               (case node_construct L new_node arg w1 of
                  Undefined \<Rightarrow> Undefined
                | Throws e w2 \<Rightarrow> Throws e (node_deallocate new_node w2)
                | Returns u w2 \<Rightarrow>
                    (case link_node it new_node w2 of
                       None \<Rightarrow> Undefined
                     | Some w3 \<Rightarrow>
                         (case lists w3 this of
                            None \<Rightarrow> Undefined
                          | Some l3 \<Rightarrow>
                              Returns () (w3\<lparr>lists := (lists w3)(this \<mapsto>
                                l3\<lparr>size_field := size_field l3 + 1\<rparr>)\<rparr>))))))"

text \<open>The two assignments that bypass the node, lines 282-283.\<close>

definition unlink_node :: "ptr \<Rightarrow> 'a world \<Rightarrow> 'a world option" where
  "unlink_node it w =
     do {
       n \<leftarrow> get_next w it;
       p \<leftarrow> get_prev w it;
       w1 \<leftarrow> set_prev n p w;
       p1 \<leftarrow> get_prev w1 it;
       n1 \<leftarrow> get_next w1 it;
       set_next p1 n1 w1
     }"

text \<open>\<^verbatim>\<open>erase(const_iterator it)\<close>, lines 276-289.\<close>

definition erase :: "nat \<Rightarrow> ptr \<Rightarrow> 'a world \<Rightarrow> (unit, 'a world) outcome" where
  "erase this it w =
     (case unlink_node it w of
        None \<Rightarrow> Undefined
      | Some w1 \<Rightarrow>
          (case node_destroy it w1 of
             None \<Rightarrow> Undefined
           | Some w2 \<Rightarrow>
               (let w3 = node_deallocate it w2 in
                case lists w3 this of
                  None \<Rightarrow> Undefined
                | Some l \<Rightarrow>
                    Returns () (w3\<lparr>lists := (lists w3)(this \<mapsto>
                      l\<lparr>size_field := size_field l - 1\<rparr>)\<rparr>))))"

text \<open>Lines 266-274.\<close>

definition insert_value ::
  "'a layout \<Rightarrow> nat \<Rightarrow> ptr \<Rightarrow> 'a \<Rightarrow> 'a world \<Rightarrow> (unit, 'a world) outcome" where
  "insert_value L this it v w = InsertHelper L this it (Some v) w"

definition push_back :: "'a layout \<Rightarrow> nat \<Rightarrow> 'a \<Rightarrow> 'a world \<Rightarrow> (unit, 'a world) outcome" where
  "push_back L this v w = insert_value L this (List_end this) v w"

definition push_front :: "'a layout \<Rightarrow> nat \<Rightarrow> 'a \<Rightarrow> 'a world \<Rightarrow> (unit, 'a world) outcome" where
  "push_front L this v w =
     (case List_begin w this of
        None \<Rightarrow> Undefined
      | Some b \<Rightarrow> insert_value L this b v w)"

definition pop_back :: "nat \<Rightarrow> 'a world \<Rightarrow> (unit, 'a world) outcome" where
  "pop_back this w =
     (case iter_decr w (List_end this) of
        None \<Rightarrow> Undefined
      | Some it \<Rightarrow> erase this it w)"

definition pop_front :: "nat \<Rightarrow> 'a world \<Rightarrow> (unit, 'a world) outcome" where
  "pop_front this w =
     (case List_begin w this of
        None \<Rightarrow> Undefined
      | Some it \<Rightarrow> erase this it w)"

subsection \<open>Construction and destruction\<close>

text \<open>\<^verbatim>\<open>get_allocator()\<close>, line 234.\<close>

definition get_allocator :: "'a List \<Rightarrow> 'a StackAllocator" where
  "get_allocator l = alloc l"

text \<open>
  \<^verbatim>\<open>List(const Alloc& alloc)\<close>, line 206, with the member initialisers of lines
  337-339. \<open>this\<close> is the place of the new object.
\<close>

definition List_ctor_alloc :: "nat \<Rightarrow> 'a StackAllocator \<Rightarrow> 'a world \<Rightarrow> 'a world" where
  "List_ctor_alloc this a w =
     w\<lparr>lists := (lists w)(this \<mapsto>
          \<lparr>alloc = a, size_field = 0, node_allocator = StackAllocator_convert a\<rparr>),
       nodes := (nodes w)(Head this \<mapsto>
          \<lparr>node_next = Head this, node_prev = Head this, node_value = None\<rparr>)\<rparr>"

text \<open>\<^verbatim>\<open>Destroy(size_t size)\<close>, lines 330-334; \<open>i\<close> is the loop counter.\<close>

function Destroy_from :: "nat \<Rightarrow> size_t \<Rightarrow> size_t \<Rightarrow> 'a world \<Rightarrow> (unit, 'a world) outcome" where
  "Destroy_from this i sz w =
     (if i < sz
      then (case pop_back this w of
              Undefined \<Rightarrow> Undefined
            | Throws e w' \<Rightarrow> Throws e w'
            | Returns u w' \<Rightarrow> Destroy_from this (i + 1) sz w')
      else Returns () w)"
  by pat_completeness auto
termination
proof (relation "measure (\<lambda>(this, i, sz, w). unat sz - unat i)")
  show "wf (measure (\<lambda>(this, i, sz, w). unat sz - unat i))" by simp
next
  fix this :: nat and i sz :: size_t and w x2 :: "'a world" and x1 :: unit
  assume "i < sz"
  then have lt: "unat i < unat sz" by (simp add: word_less_nat_alt)
  have "unat sz < 2 ^ LENGTH(64)" by (rule unsigned_less)
  with lt have "unat i + unat (1 :: size_t) < 2 ^ LENGTH(64)" by simp
  then have "unat (i + 1) = unat i + unat (1 :: size_t)" by (simp only: unat_add_lem)
  with lt show "((this, i + 1, sz, x2), (this, i, sz, w))
      \<in> measure (\<lambda>(this, i, sz, w). unat sz - unat i)"
    by simp
qed

definition Destroy :: "nat \<Rightarrow> size_t \<Rightarrow> 'a world \<Rightarrow> (unit, 'a world) outcome" where
  "Destroy this sz w = Destroy_from this 0 sz w"

text \<open>
  \<^verbatim>\<open>~List()\<close>, line 251, after which the members, \<^verbatim>\<open>head_\<close> among them, are dead.
\<close>

definition List_dtor :: "nat \<Rightarrow> 'a world \<Rightarrow> (unit, 'a world) outcome" where
  "List_dtor this w =
     (case lists w this of
        None \<Rightarrow> Undefined
      | Some l \<Rightarrow>
          (case Destroy this (size_field l) w of
             Undefined \<Rightarrow> Undefined
           | Throws e w' \<Rightarrow> Throws e w'
           | Returns u w' \<Rightarrow>
               Returns () (w'\<lparr>lists := (lists w')(this := None),
                              nodes := (nodes w')(Head this := None)\<rparr>)))"



subsection \<open>Copying\<close>

text \<open>
  The range-for loop over \<^verbatim>\<open>other\<close> of the copy constructor, lines 241-244, and of
  the copy assignment, lines 257-259 (which has no counter and ignores it here). The loop
  follows \<^verbatim>\<open>next\<close> pointers and need not end: \<open>None\<close> is the loop still running when the
  fuel is spent.
\<close>

fun copy_elements ::
  "nat \<Rightarrow> 'a layout \<Rightarrow> nat \<Rightarrow> ptr \<Rightarrow> ptr \<Rightarrow> size_t \<Rightarrow> 'a world
     \<Rightarrow> (unit, size_t \<times> 'a world) outcome option" where
  "copy_elements 0 L this it stop count w = None"
| "copy_elements (Suc fuel) L this it stop count w =
     (if it = stop then Some (Returns () (count, w))
      else
        (case iter_deref w it of
           None \<Rightarrow> Some Undefined
         | Some v \<Rightarrow>
             (case push_back L this v w of
                Undefined \<Rightarrow> Some Undefined
              | Throws e w' \<Rightarrow> Some (Throws e (count, w'))
              | Returns u w' \<Rightarrow>
                  (case iter_incr w' it of
                     None \<Rightarrow> Some Undefined
                   | Some it' \<Rightarrow> copy_elements fuel L this it' stop (count + 1) w'))))"



text \<open>
  \<^verbatim>\<open>std::swap\<close> of one data member of two List objects, of the two sentinels (a
  \<^verbatim>\<open>BaseNode\<close> assignment copies the two links), and of two \<^verbatim>\<open>prev\<close> or two
  \<^verbatim>\<open>next\<close> fields. \<^verbatim>\<open>std::swap(a, b)\<close> reads both, then writes \<open>a\<close>, then \<open>b\<close>.
\<close>

definition swap_member ::
  "('a List \<Rightarrow> 'f) \<Rightarrow> (('f \<Rightarrow> 'f) \<Rightarrow> 'a List \<Rightarrow> 'a List) \<Rightarrow> nat \<Rightarrow> nat \<Rightarrow> 'a world
     \<Rightarrow> 'a world option" where
  "swap_member get upd this other w =
     do {
       l \<leftarrow> lists w this;
       lo \<leftarrow> lists w other;
       let w1 = w\<lparr>lists := (lists w)(this \<mapsto> upd (\<lambda>x. get lo) l)\<rparr>;
       lo1 \<leftarrow> lists w1 other;
       Some (w1\<lparr>lists := (lists w1)(other \<mapsto> upd (\<lambda>x. get l) lo1)\<rparr>)
     }"

definition swap_heads :: "nat \<Rightarrow> nat \<Rightarrow> 'a world \<Rightarrow> 'a world option" where
  "swap_heads this other w =
     do {
       h \<leftarrow> nodes w (Head this);
       ho \<leftarrow> nodes w (Head other);
       let w1 = w\<lparr>nodes := (nodes w)(Head this \<mapsto>
                  h\<lparr>node_next := node_next ho, node_prev := node_prev ho\<rparr>)\<rparr>;
       ho1 \<leftarrow> nodes w1 (Head other);
       Some (w1\<lparr>nodes := (nodes w1)(Head other \<mapsto>
                  ho1\<lparr>node_next := node_next h, node_prev := node_prev h\<rparr>)\<rparr>)
     }"

definition swap_prev_fields :: "ptr \<Rightarrow> ptr \<Rightarrow> 'a world \<Rightarrow> 'a world option" where
  "swap_prev_fields p q w =
     do {
       x \<leftarrow> get_prev w p;
       y \<leftarrow> get_prev w q;
       w1 \<leftarrow> set_prev p y w;
       set_prev q x w1
     }"

definition swap_next_fields :: "ptr \<Rightarrow> ptr \<Rightarrow> 'a world \<Rightarrow> 'a world option" where
  "swap_next_fields p q w =
     do {
       x \<leftarrow> get_next w p;
       y \<leftarrow> get_next w q;
       w1 \<leftarrow> set_next p y w;
       set_next q x w1
     }"

text \<open>\<^verbatim>\<open>Swap(List<T, Alloc>& other)\<close>, lines 321-328.\<close>

definition Swap :: "nat \<Rightarrow> nat \<Rightarrow> 'a world \<Rightarrow> 'a world option" where
  "Swap this other w =
     do {
       w1 \<leftarrow> swap_member alloc alloc_update this other w;
       w2 \<leftarrow> swap_member size_field size_field_update this other w1;
       w3 \<leftarrow> swap_member node_allocator node_allocator_update this other w2;
       w4 \<leftarrow> swap_heads this other w3;
       a \<leftarrow> get_next w4 (Head this);
       b \<leftarrow> get_next w4 (Head other);
       w5 \<leftarrow> swap_prev_fields a b w4;
       c \<leftarrow> get_prev w5 (Head this);
       d \<leftarrow> get_prev w5 (Head other);
       swap_next_fields c d w5
     }"

text \<open>
  \<^verbatim>\<open>operator=(const List& other)\<close>, lines 253-262. The local \<^verbatim>\<open>new_list\<close> takes the
  next free slot; it is destroyed when the function returns and when an exception unwinds
  it.
\<close>

definition List_assign ::
  "nat \<Rightarrow> 'a layout \<Rightarrow> nat \<Rightarrow> nat \<Rightarrow> 'a world \<Rightarrow> (unit, 'a world) outcome option" where
  "List_assign fuel L this other w =
     (case lists w this of
        None \<Rightarrow> Some Undefined
      | Some l \<Rightarrow>
          (case lists w other of
             None \<Rightarrow> Some Undefined
           | Some lo \<Rightarrow>
               (let new_list = stack_top w;
                    a = (if propagate_on_copy_assignment L then get_allocator lo
                         else get_allocator l);
                    w1 = List_ctor_alloc new_list a (w\<lparr>stack_top := Suc (stack_top w)\<rparr>)
                in case List_begin w1 other of
                     None \<Rightarrow> Some Undefined
                   | Some b \<Rightarrow>
                       (case copy_elements fuel L new_list b (List_end other) 0 w1 of
                          None \<Rightarrow> None
                        | Some Undefined \<Rightarrow> Some Undefined
                        | Some (Throws e (count, w2)) \<Rightarrow>
                            (case List_dtor new_list w2 of
                               Undefined \<Rightarrow> Some Undefined
                             | Throws e' w3 \<Rightarrow> Some (Throws e' w3)
                             | Returns u w3 \<Rightarrow>
                                 Some (Throws e (w3\<lparr>stack_top := stack_top w\<rparr>)))
                        | Some (Returns u (count, w2)) \<Rightarrow>
                            (case Swap this new_list w2 of
                               None \<Rightarrow> Some Undefined
                             | Some w3 \<Rightarrow>
                                 (case List_dtor new_list w3 of
                                    Undefined \<Rightarrow> Some Undefined
                                  | Throws e' w4 \<Rightarrow> Some (Throws e' w4)
                                  | Returns u' w4 \<Rightarrow>
                                      Some (Returns () (w4\<lparr>stack_top := stack_top w\<rparr>))))))))"

subsection \<open>Traversals\<close>

text \<open>
  Loops that only read the store; their state is empty. They follow pointers and need not
  end: \<open>None\<close> is the loop still running when the fuel is spent.

  \<^verbatim>\<open>std::distance(first, last)\<close> on bidirectional iterators is the number of increments
  that take \<open>first\<close> to \<open>last\<close>.
\<close>

fun iter_distance :: "nat \<Rightarrow> 'a world \<Rightarrow> ptr \<Rightarrow> ptr \<Rightarrow> (nat, unit) outcome option" where
  "iter_distance 0 w it stop = None"
| "iter_distance (Suc fuel) w it stop =
     (if it = stop then Some (Returns 0 ())
      else
        (case iter_incr w it of
           None \<Rightarrow> Some Undefined
         | Some it' \<Rightarrow>
             (case iter_distance fuel w it' stop of
                Some (Returns n u) \<Rightarrow> Some (Returns (Suc n) ())
              | r \<Rightarrow> r)))"

text \<open>
  \<^verbatim>\<open>for (auto it = first; it != last; ++it) visit(*it);\<close>: the elements visited.
\<close>

fun forward_visit :: "nat \<Rightarrow> 'a world \<Rightarrow> ptr \<Rightarrow> ptr \<Rightarrow> ('a list, unit) outcome option" where
  "forward_visit 0 w it stop = None"
| "forward_visit (Suc fuel) w it stop =
     (if it = stop then Some (Returns [] ())
      else
        (case iter_deref w it of
           None \<Rightarrow> Some Undefined
         | Some v \<Rightarrow>
             (case iter_incr w it of
                None \<Rightarrow> Some Undefined
              | Some it' \<Rightarrow>
                  (case forward_visit fuel w it' stop of
                     Some (Returns vs u) \<Rightarrow> Some (Returns (v # vs) ())
                   | r \<Rightarrow> r))))"

text \<open>
  The same loop over \<^verbatim>\<open>std::reverse_iterator\<close>s, from \<^verbatim>\<open>reverse_iterator(current)\<close>
  to \<^verbatim>\<open>reverse_iterator(first)\<close>: dereferencing reads the element before
  \<^verbatim>\<open>current\<close>, incrementing decrements \<^verbatim>\<open>current\<close>.
\<close>

fun reverse_visit :: "nat \<Rightarrow> 'a world \<Rightarrow> ptr \<Rightarrow> ptr \<Rightarrow> ('a list, unit) outcome option" where
  "reverse_visit 0 w current first = None"
| "reverse_visit (Suc fuel) w current first =
     (if current = first then Some (Returns [] ())
      else
        (case iter_decr w current of
           None \<Rightarrow> Some Undefined
         | Some tmp \<Rightarrow>
             (case iter_deref w tmp of
                None \<Rightarrow> Some Undefined
              | Some v \<Rightarrow>
                  (case reverse_visit fuel w tmp first of
                     Some (Returns vs u) \<Rightarrow> Some (Returns (v # vs) ())
                   | r \<Rightarrow> r))))"

text \<open>
  The elements from \<^verbatim>\<open>begin()\<close> to \<^verbatim>\<open>end()\<close> and from \<^verbatim>\<open>rbegin()\<close> to
  \<^verbatim>\<open>rend()\<close> (lines 171-197), and the distance from \<^verbatim>\<open>begin()\<close> to \<^verbatim>\<open>end()\<close>.
\<close>

definition List_elements :: "nat \<Rightarrow> 'a world \<Rightarrow> nat \<Rightarrow> ('a list, unit) outcome option" where
  "List_elements fuel w this =
     (case List_begin w this of
        None \<Rightarrow> Some Undefined
      | Some b \<Rightarrow> forward_visit fuel w b (List_end this))"

definition List_reverse_elements ::
  "nat \<Rightarrow> 'a world \<Rightarrow> nat \<Rightarrow> ('a list, unit) outcome option" where
  "List_reverse_elements fuel w this =
     (case List_begin w this of
        None \<Rightarrow> Some Undefined
      | Some b \<Rightarrow> reverse_visit fuel w (List_end this) b)"

definition List_distance :: "nat \<Rightarrow> 'a world \<Rightarrow> nat \<Rightarrow> (nat, unit) outcome option" where
  "List_distance fuel w this =
     (case List_begin w this of
        None \<Rightarrow> Some Undefined
      | Some b \<Rightarrow> iter_distance fuel w b (List_end this))"

text \<open>
  The link invariant at one node \<open>X\<close>: \<^verbatim>\<open>X.next.prev == X\<close> and
  \<^verbatim>\<open>X.prev.next == X\<close>, all three nodes being live.
\<close>

definition linked :: "'a world \<Rightarrow> ptr \<Rightarrow> bool" where
  "linked w X =
     (case nodes w X of
        None \<Rightarrow> False
      | Some n \<Rightarrow> get_prev w (node_next n) = Some X \<and> get_next w (node_prev n) = Some X)"

subsection \<open>Concrete scenarios\<close>

text \<open>
  A layout with nodes of 24 bytes aligned to 8 in arenas of 1024 bytes, and one whose
  arenas of 50 bytes have room for two nodes only.
\<close>

definition layout_1024 :: "int layout" where
  "layout_1024 = \<lparr>capacity = 1024, sizeof_Node = 24, alignof_Node = 8, default_T = 0,
                   propagate_on_copy_assignment = False\<rparr>"


text \<open>A store with one fresh arena, no list, and the slots 0 and 1 reserved for lists.\<close>

definition fresh_world :: "int world" where
  "fresh_world = \<lparr>storages = [0 \<mapsto> StackStorage_init], nodes = Map.empty, lists = Map.empty,
                   stack_top = 2, outstanding = [], ctor_outcomes = []\<rparr>"

text \<open>The store a call leaves when it returns.\<close>

definition returned :: "('r, 's) outcome \<Rightarrow> 's option" where
  "returned r = (case r of Returns x s \<Rightarrow> Some s | Throws e s \<Rightarrow> None | Undefined \<Rightarrow> None)"


text \<open>
  Two lists over the arena: \<^verbatim>\<open>List<int, A> a(alloc), b(alloc); b.push_back(7);\<close>
\<close>

definition empty_and_singleton :: "int world option" where
  "empty_and_singleton =
     returned (push_back layout_1024 1 7
       (List_ctor_alloc 1 (StackAllocator 0) (List_ctor_alloc 0 (StackAllocator 0) fresh_world)))"


section \<open>Notions used in the statements\<close>

subsection \<open>Well-formed stores\<close>

text \<open>
  The conditions on the constants that hold for every instantiation: a node has a size, an
  alignment, and the index arithmetic of one node allocation cannot wrap around.
\<close>

definition wf_layout :: "'a layout \<Rightarrow> bool" where
  "wf_layout L \<longleftrightarrow>
     sizeof_Node L \<noteq> 0 \<and> alignof_Node L \<noteq> 0
     \<and> unat (capacity L) + unat (sizeof_Node L) + unat (alignof_Node L) \<le> 2 ^ 64"

text \<open>
  The cursor of every arena is within its capacity, and every live node at an arena
  address lies below the cursor of a live arena: it was handed out by \<^verbatim>\<open>allocate\<close>.
\<close>

definition wf_world :: "'a layout \<Rightarrow> 'a world \<Rightarrow> bool" where
  "wf_world L w \<longleftrightarrow>
     wf_layout L
     \<and> (\<forall>s st. storages w s = Some st \<longrightarrow> start_index st \<le> capacity L)
     \<and> (\<forall>s k. nodes w (Cell s k) \<noteq> None \<longrightarrow>
           (\<exists>st. storages w s = Some st \<and> k < start_index st))"

text \<open>
  Two stores with the same nodes, List objects, pointers to deallocate and slots: they
  differ at most in the cursors of the arenas (which never move back) and in the
  environment of the payload type.
\<close>

definition same_heap :: "'a world \<Rightarrow> 'a world \<Rightarrow> bool" where
  "same_heap w w' \<longleftrightarrow>
     nodes w' = nodes w \<and> lists w' = lists w \<and> outstanding w' = outstanding w
     \<and> stack_top w' = stack_top w"

text \<open>The slot of a new List object is free.\<close>

definition free_slot :: "'a world \<Rightarrow> nat \<Rightarrow> bool" where
  "free_slot w i \<longleftrightarrow> lists w i = None \<and> nodes w (Head i) = None"

text \<open>The last node of the list (the sentinel, when it is empty) points back to the sentinel.\<close>

definition tail_linked :: "'a world \<Rightarrow> nat \<Rightarrow> bool" where
  "tail_linked w this \<longleftrightarrow>
     (case nodes w (Head this) of
        None \<Rightarrow> False
      | Some h \<Rightarrow> get_next w (node_prev h) = Some (Head this))"

text \<open>\<open>n\<close> calls of \<^verbatim>\<open>pop_back\<close>.\<close>

fun pop_back_n :: "nat \<Rightarrow> nat \<Rightarrow> 'a world \<Rightarrow> (unit, 'a world) outcome" where
  "pop_back_n this 0 w = Returns () w"
| "pop_back_n this (Suc n) w =
     (case pop_back this w of
        Undefined \<Rightarrow> Undefined
      | Throws e w' \<Rightarrow> Throws e w'
      | Returns u w' \<Rightarrow> pop_back_n this n w')"

subsection \<open>Rings\<close>

text \<open>
  \<open>seg h p xs n vs\<close>: in the store of nodes \<open>h\<close>, the payload nodes \<open>xs\<close> hold the values
  \<open>vs\<close> and are linked in this order, each to its neighbours, the first back to \<open>p\<close> and
  the last on to \<open>n\<close>.
\<close>

fun seg :: "(ptr \<rightharpoonup> 'a node) \<Rightarrow> ptr \<Rightarrow> ptr list \<Rightarrow> ptr \<Rightarrow> 'a list \<Rightarrow> bool" where
  "seg h p [] n vs = (vs = [])"
| "seg h p (x # xs) n vs =
     (case vs of
        [] \<Rightarrow> False
      | v # vs' \<Rightarrow>
          h x = Some \<lparr>node_next = hd (xs @ [n]), node_prev = p, node_value = Some v\<rparr>
          \<and> seg h x xs n vs')"

text \<open>
  \<open>ring h s xs vs\<close>: the sentinel \<open>s\<close> and the payload nodes \<open>xs\<close>, which hold the values
  \<open>vs\<close>, are distinct and form one circular doubly linked ring, in this order.
\<close>

definition ring :: "(ptr \<rightharpoonup> 'a node) \<Rightarrow> ptr \<Rightarrow> ptr list \<Rightarrow> 'a list \<Rightarrow> bool" where
  "ring h s xs vs \<longleftrightarrow>
     distinct (s # xs)
     \<and> h s = Some \<lparr>node_next = hd (xs @ [s]), node_prev = last (s # xs), node_value = None\<rparr>
     \<and> seg h s xs s vs"

text \<open>
  A well-formed list: its sentinel and payload nodes form a ring, and \<^verbatim>\<open>size_\<close> is the
  number of payload nodes.
\<close>

definition wf_list :: "'a world \<Rightarrow> nat \<Rightarrow> ptr list \<Rightarrow> 'a list \<Rightarrow> bool" where
  "wf_list w this xs vs \<longleftrightarrow>
     ring (nodes w) (Head this) xs vs
     \<and> (case lists w this of
          None \<Rightarrow> False
        | Some l \<Rightarrow> unat (size_field l) = length xs
                   \<and> storages w (stack_storage (node_allocator l)) \<noteq> None
                   \<and> storages w (stack_storage (alloc l)) \<noteq> None)"

section \<open>Properties of the arena\<close>

subsection \<open>One call\<close>

lemma pad_nat:
  fixes s a :: size_t
  assumes "a \<noteq> 0"
  shows "unat ((a - s mod a) mod a) = (unat a - unat s mod unat a) mod unat a"
proof -
  have "s mod a < a" using assms by (simp add: word_mod_less_divisor word_neq_0_conv)
  then have "s mod a \<le> a" by simp
  then have "unat (a - s mod a) = unat a - unat (s mod a)" by (rule unat_sub)
  then show ?thesis by (simp add: unat_mod)
qed

lemma round_up_nat:
  fixes s a :: nat
  assumes "0 < a"
  shows "(s + (a - s mod a) mod a) mod a = 0" and "(a - s mod a) mod a < a"
proof -
  show "(s + (a - s mod a) mod a) mod a = 0"
  proof (cases "s mod a = 0")
    case True then show ?thesis by simp
  next
    case False
    then have "(a - s mod a) mod a = a - s mod a" using assms by simp
    moreover have "(s + (a - s mod a)) mod a = 0"
    proof -
      have "s mod a < a" using assms by simp
      then have "(s mod a + (a - s mod a)) = a" by simp
      then have "(s mod a + (a - s mod a)) mod a = 0" by simp
      then show ?thesis by (metis mod_add_left_eq)
    qed
    ultimately show ?thesis by simp
  qed
  show "(a - s mod a) mod a < a" using assms by simp
qed

lemma allocate_Returns_nat:
  assumes ok: "allocate N count alignment st = Returns p st'"
    and cur: "start_index st \<le> N"
    and small: "unat N + unat count + unat alignment \<le> 2 ^ 64"
  shows "unat (start_index st') = unat (start_index st) + unat count
           + (unat alignment - (unat (start_index st) + unat count) mod unat alignment) mod unat alignment"
    and "unat p = unat (start_index st') - unat count"
    and "unat count \<le> unat (start_index st')"
    and "start_index st' < N"
    and "unat (start_index st') mod unat alignment = 0"
    and "alignment \<noteq> 0"
proof -
  show a0: "alignment \<noteq> 0" using ok by (auto simp: allocate_def)
  define s1 where "s1 = start_index st + count"
  define pad where "pad = (alignment - s1 mod alignment) mod alignment"
  define s2 where "s2 = s1 + pad"
  from ok a0 have res: "\<not> N \<le> s2" "p = s2 - count" "start_index st' = s2"
    by (auto simp: allocate_def Let_def s1_def pad_def s2_def split: if_splits)
  have curn: "unat (start_index st) \<le> unat N" using cur by (simp add: word_le_nat_alt)
  have a_pos: "0 < unat alignment" using a0 by (simp add: unat_gt_0)
  have s1n: "unat s1 = unat (start_index st) + unat count"
    unfolding s1_def using curn small a_pos by (intro unat_add_lem[THEN iffD1]) simp
  have padn: "unat pad = (unat alignment - unat s1 mod unat alignment) mod unat alignment"
    unfolding pad_def using a0 by (rule pad_nat)
  have pad_lt: "unat pad < unat alignment" unfolding padn using a_pos by simp
  have s2n: "unat s2 = unat s1 + unat pad"
    unfolding s2_def using s1n pad_lt curn small by (intro unat_add_lem[THEN iffD1]) simp
  show "unat (start_index st') = unat (start_index st) + unat count
           + (unat alignment - (unat (start_index st) + unat count) mod unat alignment) mod unat alignment"
    using res s2n s1n padn by simp
  have cle: "count \<le> s2" using s2n s1n by (simp add: word_le_nat_alt)
  show "unat p = unat (start_index st') - unat count"
    using res unat_sub[OF cle] by simp
  show "unat count \<le> unat (start_index st')" using res s2n s1n by simp
  show "start_index st' < N" using res by simp
  show "unat (start_index st') mod unat alignment = 0"
    using res s2n padn round_up_nat(1)[OF a_pos, of "unat s1"] by simp
qed


lemma allocate_Throws_unchanged:
  "allocate N count alignment st = Throws e st' \<Longrightarrow> e = bad_alloc \<and> st' = st"
  by (auto simp: allocate_def Let_def split: if_splits)





subsection \<open>Failure and retry\<close>

text \<open>
  C6 at a request that cannot be satisfied: \<open>2^64 - 2\<close> bytes from an arena of 16 bytes
  whose cursor is 4. The sum wraps to 2, the capacity test passes, and the call returns
  index 4 with the cursor moved back to 2 instead of throwing \<^verbatim>\<open>bad_alloc\<close>.
\<close>

theorem allocate_wraps_instead_of_failing:
  "allocate 16 (- 2) 1 \<lparr>start_index = 4\<rparr> = Returns 4 \<lparr>start_index = 2\<rparr>
   \<and> unat (16 :: size_t) < unat (4 :: size_t) + unat (- 2 :: size_t)"
  by (simp add: allocate_def)

section \<open>Properties of the allocator adaptor\<close>

text \<open>
  C7. Two adaptors, of any element types, compare equal exactly when they point to the same
  arena, and unequal exactly when they point to different ones; an adaptor converted from
  another points to the same arena, so it compares as the original does; adaptors made from
  arenas \<open>s\<close> and \<open>s'\<close> are equal exactly when \<open>s = s'\<close>.
\<close>

theorem StackAllocator_eq_iff_same_storage:
  "StackAllocator_eq a b = (get_storage a = get_storage b)
   \<and> StackAllocator_neq a b = (get_storage a \<noteq> get_storage b)
   \<and> get_storage (StackAllocator_convert a :: 'V StackAllocator) = get_storage a
   \<and> StackAllocator_eq (StackAllocator_convert a :: 'V StackAllocator) b = StackAllocator_eq a b
   \<and> StackAllocator_eq a (StackAllocator_convert b :: 'V StackAllocator) = StackAllocator_eq a b
   \<and> StackAllocator_eq (StackAllocator_of_storage s :: 'T StackAllocator)
        (StackAllocator_of_storage s' :: 'U StackAllocator) = (s = s')"
  by (simp add: StackAllocator_eq_def StackAllocator_neq_def get_storage_def
      StackAllocator_convert_def StackAllocator_of_storage_def)

subsection \<open>Alignment of typed allocations\<close>












section \<open>Properties of the list\<close>

subsection \<open>Observations depend on the nodes and the List objects only\<close>

lemma iter_distance_cong:
  "nodes w' = nodes w \<Longrightarrow> iter_distance fuel w' it stop = iter_distance fuel w it stop"
  by (induction fuel arbitrary: it) (auto simp: iter_incr_def get_next_def split: option.splits)


lemma reverse_visit_cong:
  "nodes w' = nodes w \<Longrightarrow> reverse_visit fuel w' it stop = reverse_visit fuel w it stop"
  by (induction fuel arbitrary: it)
    (auto simp: iter_decr_def iter_deref_def get_prev_def split: option.splits)


lemma List_reverse_elements_cong:
  assumes "nodes w' = nodes w"
  shows "List_reverse_elements fuel w' this = List_reverse_elements fuel w this"
  using assms reverse_visit_cong[OF assms]
  by (simp add: List_reverse_elements_def List_begin_def get_next_def split: option.splits)

lemma List_distance_cong:
  assumes "nodes w' = nodes w"
  shows "List_distance fuel w' this = List_distance fuel w this"
  using assms iter_distance_cong[OF assms]
  by (simp add: List_distance_def List_begin_def get_next_def split: option.splits)


subsection \<open>A failed insertion\<close>

lemma node_allocate_Returns:
  assumes "node_allocate L a w = Returns p w1"
  shows "\<exists>k stores'. StackAllocator_allocate (capacity L) (sizeof_Node L) (alignof_Node L) a 1
                        (storages w) = Returns k stores'
           \<and> p = Cell (stack_storage a) k
           \<and> w1 = w\<lparr>storages := stores', outstanding := p # outstanding w\<rparr>"
  using assms by (auto simp: node_allocate_def split: outcome.splits)

lemma node_allocate_Throws:
  assumes "node_allocate L a w = Throws e w1"
  shows "\<exists>stores'. w1 = w\<lparr>storages := stores'\<rparr>"
  using assms by (auto simp: node_allocate_def split: outcome.splits)

lemma node_construct_Throws:
  assumes "node_construct L p arg w = Throws e w1"
  shows "e = payload_exn \<and> w1 = w\<lparr>ctor_outcomes := tl (ctor_outcomes w)\<rparr>"
  using assms by (auto simp: node_construct_def Let_def split: if_splits)

lemma node_construct_Returns:
  assumes "node_construct L p arg w = Returns u w1"
  shows "w1 = w\<lparr>ctor_outcomes := tl (ctor_outcomes w),
                 nodes := (nodes w)(p \<mapsto> \<lparr>node_next = Null, node_prev = Null,
                   node_value = Some (case arg of None \<Rightarrow> default_T L | Some v \<Rightarrow> v)\<rparr>)\<rparr>"
  using assms by (auto simp: node_construct_def Let_def split: if_splits)

lemma node_construct_defined: "node_construct L p arg w \<noteq> Undefined"
  by (simp add: node_construct_def Let_def)

lemma InsertHelper_Throws_cases:
  assumes "InsertHelper L this it arg w = Throws e w'"
  shows "\<exists>l. lists w this = Some l
           \<and> (node_allocate L (node_allocator l) w = Throws e w'
              \<or> (\<exists>p w1 w2. node_allocate L (node_allocator l) w = Returns p w1
                    \<and> node_construct L p arg w1 = Throws e w2
                    \<and> w' = node_deallocate p w2))"
proof -
  from assms obtain l where l: "lists w this = Some l"
    by (auto simp: InsertHelper_def split: option.splits)
  show ?thesis
  proof (cases "node_allocate L (node_allocator l) w")
    case Undefined
    with assms l show ?thesis by (simp add: InsertHelper_def)
  next
    case (Throws e1 w1)
    with assms l show ?thesis by (simp add: InsertHelper_def)
  next
    case (Returns p w1)
    show ?thesis
    proof (cases "node_construct L p arg w1")
      case Undefined
      with assms l Returns show ?thesis by (simp add: InsertHelper_def)
    next
      case (Throws e2 w2)
      with assms l Returns show ?thesis by (simp add: InsertHelper_def)
    next
      case inner: (Returns u w2)
      with assms l Returns show ?thesis
        by (simp add: InsertHelper_def split: option.splits)
    qed
  qed
qed

lemma InsertHelper_Throws_unchanged:
  assumes "InsertHelper L this it arg w = Throws e w'"
  shows "nodes w' = nodes w" "lists w' = lists w" "outstanding w' = outstanding w"
    "stack_top w' = stack_top w"
proof -
  from InsertHelper_Throws_cases[OF assms] obtain l where
    "lists w this = Some l
       \<and> (node_allocate L (node_allocator l) w = Throws e w'
              \<or> (\<exists>p w1 w2. node_allocate L (node_allocator l) w = Returns p w1
                    \<and> node_construct L p arg w1 = Throws e w2
                    \<and> w' = node_deallocate p w2))" ..
  then have cases: "node_allocate L (node_allocator l) w = Throws e w'
              \<or> (\<exists>p w1 w2. node_allocate L (node_allocator l) w = Returns p w1
                    \<and> node_construct L p arg w1 = Throws e w2
                    \<and> w' = node_deallocate p w2)"
    by (rule conjunct2)
  have "nodes w' = nodes w \<and> lists w' = lists w \<and> outstanding w' = outstanding w
       \<and> stack_top w' = stack_top w"
    using cases
  proof
    assume "node_allocate L (node_allocator l) w = Throws e w'"
    from node_allocate_Throws[OF this] show ?thesis by auto
  next
    assume "\<exists>p w1 w2. node_allocate L (node_allocator l) w = Returns p w1
                    \<and> node_construct L p arg w1 = Throws e w2
                    \<and> w' = node_deallocate p w2"
    then obtain p w1 w2 where a: "node_allocate L (node_allocator l) w = Returns p w1"
      and c: "node_construct L p arg w1 = Throws e w2" and d: "w' = node_deallocate p w2"
      by blast
    from node_allocate_Returns[OF a] node_construct_Throws[OF c] d
    show ?thesis by (auto simp: node_deallocate_def)
  qed
  then show "nodes w' = nodes w" "lists w' = lists w" "outstanding w' = outstanding w"
    "stack_top w' = stack_top w" by simp_all
qed



subsection \<open>Copy assignment between an empty and a non-empty list\<close>

text \<open>
  C1 at \<^verbatim>\<open>a = b\<close> for an empty \<^verbatim>\<open>a\<close> and \<^verbatim>\<open>b\<close> holding 7. The assignment returns;
  afterwards iterating \<^verbatim>\<open>b\<close> yields 7 and iterating \<^verbatim>\<open>a\<close> yields nothing.
\<close>

theorem List_assign_to_empty_loses_elements:
  "(case empty_and_singleton of
      None \<Rightarrow> None
    | Some w \<Rightarrow>
        (case List_assign 3 layout_1024 0 1 w of
           None \<Rightarrow> None
         | Some r \<Rightarrow>
             (case returned r of
                None \<Rightarrow> None
              | Some w' \<Rightarrow> Some (List_elements 3 w 1, List_elements 3 w' 1, List_elements 3 w' 0))))
   = Some (Some (Returns [7] ()), Some (Returns [7] ()), Some (Returns [] ()))"
  by code_simp

text \<open>
  C2 at the same assignment. Afterwards \<^verbatim>\<open>a.size()\<close> is 1 and no payload node is between
  \<^verbatim>\<open>a.begin()\<close> and \<^verbatim>\<open>a.end()\<close>; the sentinel of \<^verbatim>\<open>a\<close> is its own \<^verbatim>\<open>next\<close>, its
  \<^verbatim>\<open>prev\<close> is the sentinel of the destroyed temporary, and the link invariant fails at
  the sentinel of \<^verbatim>\<open>a\<close>.
\<close>

theorem List_assign_to_empty_breaks_ring:
  "(case empty_and_singleton of
      None \<Rightarrow> None
    | Some w \<Rightarrow>
        (case List_assign 3 layout_1024 0 1 w of
           None \<Rightarrow> None
         | Some r \<Rightarrow>
             (case returned r of
                None \<Rightarrow> None
              | Some w' \<Rightarrow>
                  Some (linked w (Head 0), linked w' (Head 0), get_next w' (Head 0),
                        get_prev w' (Head 0), nodes w' (Head 2), List_size w' 0,
                        List_distance 3 w' 0))))
   = Some (True, False, Some (Head 0), Some (Head 2), None, Some 1, Some (Returns 0 ()))"
  by code_simp

text \<open>
  C8 at the same assignment. Afterwards \<^verbatim>\<open>a.begin() == a.end()\<close>, so no increment leads
  from one to the other, and \<^verbatim>\<open>a.size()\<close> is 1.
\<close>

theorem List_assign_to_empty_distance_not_size:
  "(case empty_and_singleton of
      None \<Rightarrow> None
    | Some w \<Rightarrow>
        (case List_assign 3 layout_1024 0 1 w of
           None \<Rightarrow> None
         | Some r \<Rightarrow>
             (case returned r of
                None \<Rightarrow> None
              | Some w' \<Rightarrow>
                  Some (List_begin w' 0 = Some (List_end 0), List_distance 3 w' 0,
                        List_size w' 0))))
   = Some (True, Some (Returns 0 ()), Some 1)"
  by code_simp

subsection \<open>A successful insertion at the end, and its undoing by \<^verbatim>\<open>pop_back\<close>\<close>

lemma StackAllocator_allocate_Returns:
  assumes "StackAllocator_allocate N sz al a count stores = Returns k stores'"
  shows "\<exists>st st'. stores (stack_storage a) = Some st
           \<and> allocate N (count * sz) al st = Returns k st'
           \<and> stores' = stores(stack_storage a \<mapsto> st')"
  using assms by (auto simp: StackAllocator_allocate_def split: option.splits outcome.splits)

lemma wf_world_layout: "wf_world L w \<Longrightarrow> wf_layout L"
  by (simp add: wf_world_def)

lemma wf_world_cursor:
  "wf_world L w \<Longrightarrow> storages w s = Some st \<Longrightarrow> start_index st \<le> capacity L"
  unfolding wf_world_def by blast

lemma wf_world_cell:
  assumes "wf_world L w" "nodes w (Cell s k) \<noteq> None" "storages w s = Some st"
  shows "k < start_index st"
proof -
  from assms(1,2) have "\<exists>st. storages w s = Some st \<and> k < start_index st"
    unfolding wf_world_def by blast
  with assms(3) show ?thesis by simp
qed

lemma wf_world_cell_live:
  assumes "wf_world L w" "nodes w (Cell s k) \<noteq> None"
  shows "\<exists>st. storages w s = Some st \<and> k < start_index st"
  using assms unfolding wf_world_def by blast

lemma wf_worldI:
  assumes "wf_layout L"
    and "\<And>s st. storages w s = Some st \<Longrightarrow> start_index st \<le> capacity L"
    and "\<And>s k. nodes w (Cell s k) \<noteq> None \<Longrightarrow> \<exists>st. storages w s = Some st \<and> k < start_index st"
  shows "wf_world L w"
  using assms unfolding wf_world_def by blast

lemma node_allocate_fresh:
  assumes wf: "wf_world L w" and run: "node_allocate L a w = Returns p w1"
  shows "\<exists>k st st'. p = Cell (stack_storage a) k
           \<and> storages w (stack_storage a) = Some st
           \<and> w1 = w\<lparr>storages := (storages w)(stack_storage a \<mapsto> st'),
                      outstanding := p # outstanding w\<rparr>
           \<and> start_index st \<le> k \<and> k < start_index st' \<and> start_index st' \<le> capacity L
           \<and> unat (start_index st) < unat (start_index st')
           \<and> nodes w p = None"
proof -
  from node_allocate_Returns[OF run] obtain k stores' where
    sa: "StackAllocator_allocate (capacity L) (sizeof_Node L) (alignof_Node L) a 1 (storages w)
           = Returns k stores'"
    and p: "p = Cell (stack_storage a) k"
    and w1: "w1 = w\<lparr>storages := stores', outstanding := p # outstanding w\<rparr>"
    by blast
  from StackAllocator_allocate_Returns[OF sa] obtain st st' where
    st: "storages w (stack_storage a) = Some st"
    and al: "allocate (capacity L) (sizeof_Node L) (alignof_Node L) st = Returns k st'"
    and stores': "stores' = (storages w)(stack_storage a \<mapsto> st')"
    by auto
  from wf st have cur: "start_index st \<le> capacity L" by (rule wf_world_cursor)
  from wf have small: "unat (capacity L) + unat (sizeof_Node L) + unat (alignof_Node L) \<le> 2 ^ 64"
    and sz: "sizeof_Node L \<noteq> 0"
    by (auto simp: wf_world_def wf_layout_def)
  note step = allocate_Returns_nat[OF al cur small]
  have szpos: "0 < unat (sizeof_Node L)" using sz by (simp add: unat_gt_0)
  have kge: "unat (start_index st) \<le> unat k" using step(1,2) by simp
  have klt: "unat k < unat (start_index st')" using step(2,3) szpos by simp
  have fresh: "nodes w p = None"
  proof (rule ccontr)
    assume "nodes w p \<noteq> None"
    with wf p st have "k < start_index st" by (auto intro: wf_world_cell)
    with kge show False by (simp add: word_less_nat_alt)
  qed
  show ?thesis
    using p st w1 stores' kge klt step(4) fresh
    by (auto simp: word_le_nat_alt word_less_nat_alt)
qed

lemma link_node_end:
  assumes h: "nodes w (Head this) = Some h" and P: "nodes w p = Some P"
    and ne: "p \<noteq> Head this" and nl: "nodes w (node_prev h) = Some nl" and nep: "node_prev h \<noteq> p"
  shows "link_node (Head this) p w =
           Some (w\<lparr>nodes :=
             (let N1 = (nodes w)(p \<mapsto> P\<lparr>node_prev := node_prev h, node_next := Head this\<rparr>,
                                 Head this \<mapsto> h\<lparr>node_prev := p\<rparr>)
              in N1(node_prev h \<mapsto> (the (N1 (node_prev h)))\<lparr>node_next := p\<rparr>))\<rparr>)"
  using assms
  by (cases "node_prev h = Head this")
     (simp_all add: link_node_def get_prev_def set_prev_def set_next_def Let_def)


lemma tail_linkedD:
  assumes "tail_linked w this"
  shows "\<exists>h nl. nodes w (Head this) = Some h \<and> nodes w (node_prev h) = Some nl
           \<and> node_next nl = Head this"
  using assms by (auto simp: tail_linked_def get_next_def split: option.splits)

lemma InsertHelper_end_Returns:
  assumes wf: "wf_world L w" and tl: "tail_linked w this"
    and run: "InsertHelper L this (Head this) arg w = Returns () w'"
  shows "\<exists>l h nl p k st st'.
           lists w this = Some l \<and> nodes w (Head this) = Some h
         \<and> nodes w (node_prev h) = Some nl \<and> node_next nl = Head this
         \<and> p = Cell (stack_storage (node_allocator l)) k \<and> nodes w p = None
         \<and> storages w (stack_storage (node_allocator l)) = Some st
         \<and> unat (start_index st) < unat (start_index st') \<and> start_index st' \<le> capacity L
         \<and> k < start_index st'
         \<and> w' = w\<lparr>storages := (storages w)(stack_storage (node_allocator l) \<mapsto> st'),
                    outstanding := p # outstanding w,
                    ctor_outcomes := tl (ctor_outcomes w),
                    nodes :=
                      (let N1 = (nodes w)(p \<mapsto> \<lparr>node_next = Head this, node_prev = node_prev h,
                                    node_value = Some (case arg of None \<Rightarrow> default_T L | Some v \<Rightarrow> v)\<rparr>,
                                 Head this \<mapsto> h\<lparr>node_prev := p\<rparr>)
                       in N1(node_prev h \<mapsto> (the (N1 (node_prev h)))\<lparr>node_next := p\<rparr>)),
                    lists := (lists w)(this \<mapsto> l\<lparr>size_field := size_field l + 1\<rparr>)\<rparr>"
proof -
  from tail_linkedD[OF tl] obtain h nl where h: "nodes w (Head this) = Some h"
    and nl: "nodes w (node_prev h) = Some nl" and nln: "node_next nl = Head this" by blast
  from run obtain l where l: "lists w this = Some l"
    by (auto simp: InsertHelper_def split: option.splits)
  from run l obtain p w1 where al: "node_allocate L (node_allocator l) w = Returns p w1"
    by (auto simp: InsertHelper_def split: outcome.splits)
  from run l al obtain w2 where co: "node_construct L p arg w1 = Returns () w2"
    by (auto simp: InsertHelper_def split: outcome.splits)
  from run l al co obtain w3 where li: "link_node (Head this) p w2 = Some w3"
    by (auto simp: InsertHelper_def split: option.splits)
  from node_allocate_fresh[OF wf al] obtain k st st' where
    p: "p = Cell (stack_storage (node_allocator l)) k"
    and st: "storages w (stack_storage (node_allocator l)) = Some st"
    and w1: "w1 = w\<lparr>storages := (storages w)(stack_storage (node_allocator l) \<mapsto> st'),
                      outstanding := p # outstanding w\<rparr>"
    and bounds: "k < start_index st'" "start_index st' \<le> capacity L"
      "unat (start_index st) < unat (start_index st')"
    and fresh: "nodes w p = None"
    by blast
  note w2 = node_construct_Returns[OF co]
  define P :: "'a node" where "P = \<lparr>node_next = Null, node_prev = Null,
      node_value = Some (case arg of None \<Rightarrow> default_T L | Some v \<Rightarrow> v)\<rparr>"
  have pne: "p \<noteq> Head this" using p by simp
  have prevne: "node_prev h \<noteq> p" using nl fresh by auto
  have h2: "nodes w2 (Head this) = Some h" using w2 w1 h pne by simp
  have P2: "nodes w2 p = Some P" using w2 by (simp add: P_def)
  have nl2: "nodes w2 (node_prev h) = Some nl" using w2 w1 nl prevne by simp
  note li' = link_node_end[OF h2 P2 pne nl2 prevne]
  from li li' have w3: "w3 = w2\<lparr>nodes :=
             (let N1 = (nodes w2)(p \<mapsto> P\<lparr>node_prev := node_prev h, node_next := Head this\<rparr>,
                                 Head this \<mapsto> h\<lparr>node_prev := p\<rparr>)
              in N1(node_prev h \<mapsto> (the (N1 (node_prev h)))\<lparr>node_next := p\<rparr>))\<rparr>"
    by simp
  have l3: "lists w3 this = Some l" using w3 w2 w1 l by simp
  from run l al co li l3 have w': "w' = w3\<lparr>lists := (lists w3)(this \<mapsto>
                                l\<lparr>size_field := size_field l + 1\<rparr>)\<rparr>"
    by (simp add: InsertHelper_def)
  have "w' = w\<lparr>storages := (storages w)(stack_storage (node_allocator l) \<mapsto> st'),
                    outstanding := p # outstanding w,
                    ctor_outcomes := tl (ctor_outcomes w),
                    nodes :=
                      (let N1 = (nodes w)(p \<mapsto> \<lparr>node_next = Head this, node_prev = node_prev h,
                                    node_value = Some (case arg of None \<Rightarrow> default_T L | Some v \<Rightarrow> v)\<rparr>,
                                 Head this \<mapsto> h\<lparr>node_prev := p\<rparr>)
                       in N1(node_prev h \<mapsto> (the (N1 (node_prev h)))\<lparr>node_next := p\<rparr>)),
                    lists := (lists w)(this \<mapsto> l\<lparr>size_field := size_field l + 1\<rparr>)\<rparr>"
    unfolding w' w3 by (simp add: w2 w1 P_def Let_def)
  with l h nl nln p fresh st bounds show ?thesis by blast
qed


lemma InsertHelper_end_wf_world:
  assumes wf: "wf_world L w" and tl: "tail_linked w this"
    and run: "InsertHelper L this (Head this) arg w = Returns () w'"
  shows "wf_world L w'"
proof -
  from InsertHelper_end_Returns[OF assms] obtain l h nl p k st st' where
    l: "lists w this = Some l" and h: "nodes w (Head this) = Some h"
    and nl: "nodes w (node_prev h) = Some nl"
    and p: "p = Cell (stack_storage (node_allocator l)) k"
    and st: "storages w (stack_storage (node_allocator l)) = Some st"
    and lt: "unat (start_index st) < unat (start_index st')"
    and cap: "start_index st' \<le> capacity L" and k: "k < start_index st'"
    and sto: "storages w' = (storages w)(stack_storage (node_allocator l) \<mapsto> st')"
    and nod: "nodes w' =
                      (let N1 = (nodes w)(p \<mapsto> \<lparr>node_next = Head this, node_prev = node_prev h,
                                    node_value = Some (case arg of None \<Rightarrow> default_T L | Some v \<Rightarrow> v)\<rparr>,
                                 Head this \<mapsto> h\<lparr>node_prev := p\<rparr>)
                       in N1(node_prev h \<mapsto> (the (N1 (node_prev h)))\<lparr>node_next := p\<rparr>))"
    by fastforce
  have dom: "nodes w' q \<noteq> None \<Longrightarrow> q = p \<or> nodes w q \<noteq> None" for q
    using nod h nl by (auto simp: Let_def split: if_splits)
  show ?thesis
  proof (rule wf_worldI)
    show "wf_layout L" using wf by (rule wf_world_layout)
  next
    fix s st0 assume "storages w' s = Some st0"
    then show "start_index st0 \<le> capacity L"
      using sto cap wf_world_cursor[OF wf] by (auto split: if_splits)
  next
    fix s k0 assume live: "nodes w' (Cell s k0) \<noteq> None"
    from dom[OF live] show "\<exists>st0. storages w' s = Some st0 \<and> k0 < start_index st0"
    proof
      assume "Cell s k0 = p"
      then show ?thesis using p sto k by simp
    next
      assume "nodes w (Cell s k0) \<noteq> None"
      from wf_world_cell_live[OF wf this] obtain st0 where
        st0: "storages w s = Some st0" "k0 < start_index st0" by blast
      show ?thesis
      proof (cases "s = stack_storage (node_allocator l)")
        case True
        with st0 st have "k0 < start_index st" by simp
        with lt have "k0 < start_index st'" by (simp add: word_less_nat_alt)
        with True sto show ?thesis by simp
      next
        case False
        with st0 sto show ?thesis by simp
      qed
    qed
  qed
qed

lemma InsertHelper_end_tail_linked:
  assumes wf: "wf_world L w" and tl: "tail_linked w this"
    and run: "InsertHelper L this (Head this) arg w = Returns () w'"
  shows "tail_linked w' this"
proof -
  from InsertHelper_end_Returns[OF assms] obtain l h nl p k st st' where
    l: "lists w this = Some l" and h: "nodes w (Head this) = Some h"
    and nl: "nodes w (node_prev h) = Some nl" and nln: "node_next nl = Head this"
    and p: "p = Cell (stack_storage (node_allocator l)) k" and fresh: "nodes w p = None"
    and w': "w' = w\<lparr>storages := (storages w)(stack_storage (node_allocator l) \<mapsto> st'),
                    outstanding := p # outstanding w,
                    ctor_outcomes := tl (ctor_outcomes w),
                    nodes :=
                      (let N1 = (nodes w)(p \<mapsto> \<lparr>node_next = Head this, node_prev = node_prev h,
                                    node_value = Some (case arg of None \<Rightarrow> default_T L | Some v \<Rightarrow> v)\<rparr>,
                                 Head this \<mapsto> h\<lparr>node_prev := p\<rparr>)
                       in N1(node_prev h \<mapsto> (the (N1 (node_prev h)))\<lparr>node_next := p\<rparr>)),
                    lists := (lists w)(this \<mapsto> l\<lparr>size_field := size_field l + 1\<rparr>)\<rparr>"
    by blast
  have "node_prev h \<noteq> p" using nl fresh by auto
  moreover have "p \<noteq> Head this" using p by simp
  ultimately show ?thesis
    unfolding w' using h nl
    by (cases "node_prev h = Head this") (simp_all add: tail_linked_def get_next_def Let_def)
qed

lemma pop_back_after_InsertHelper_end:
  assumes wf: "wf_world L w" and tl: "tail_linked w this"
    and run: "InsertHelper L this (Head this) arg w = Returns () w'"
  shows "pop_back this w' =
           Returns () (w\<lparr>storages := storages w', ctor_outcomes := ctor_outcomes w'\<rparr>)"
proof -
  from InsertHelper_end_Returns[OF assms] obtain l h nl p k st st' where
    l: "lists w this = Some l" and h: "nodes w (Head this) = Some h"
    and nl: "nodes w (node_prev h) = Some nl" and nln: "node_next nl = Head this"
    and p: "p = Cell (stack_storage (node_allocator l)) k" and fresh: "nodes w p = None"
    and w': "w' = w\<lparr>storages := (storages w)(stack_storage (node_allocator l) \<mapsto> st'),
                    outstanding := p # outstanding w,
                    ctor_outcomes := tl (ctor_outcomes w),
                    nodes :=
                      (let N1 = (nodes w)(p \<mapsto> \<lparr>node_next = Head this, node_prev = node_prev h,
                                    node_value = Some (case arg of None \<Rightarrow> default_T L | Some v \<Rightarrow> v)\<rparr>,
                                 Head this \<mapsto> h\<lparr>node_prev := p\<rparr>)
                       in N1(node_prev h \<mapsto> (the (N1 (node_prev h)))\<lparr>node_next := p\<rparr>)),
                    lists := (lists w)(this \<mapsto> l\<lparr>size_field := size_field l + 1\<rparr>)\<rparr>"
    by blast
  have ne1: "node_prev h \<noteq> p" using nl fresh by auto
  have ne2: "p \<noteq> Head this" using p by simp
  have ll: "(lists w)(this \<mapsto> l) = lists w" using l by (simp add: map_upd_triv)
  show ?thesis
  proof (cases "node_prev h = Head this")
    case True
    with h nl nln have hh: "nl = h" "node_next h = Head this" by simp_all
    have hfix: "h\<lparr>node_prev := Head this, node_next := Head this\<rparr> = h"
      using True hh by simp
    have N: "(nodes w)(Head this \<mapsto> h, p := None) = nodes w"
      using h fresh by (auto simp: fun_eq_iff)
    show ?thesis
      unfolding w' using True h ne2 l
      by (simp add: pop_back_def iter_decr_def List_end_def get_prev_def get_next_def erase_def
          unlink_node_def set_prev_def set_next_def node_destroy_def node_deallocate_def Let_def
          hfix N ll)
  next
    case False
    have hfix: "h\<lparr>node_prev := node_prev h\<rparr> = h" by simp
    have nfix: "nl\<lparr>node_next := Head this\<rparr> = nl" using nln by simp
    have N: "(nodes w)(p := None, Head this \<mapsto> h, node_prev h \<mapsto> nl) = nodes w"
      using h nl fresh by (auto simp: fun_eq_iff)
    have eq: "((nodes w)(p \<mapsto> x, Head this \<mapsto> h, node_prev h \<mapsto> nl))(p := None) = nodes w" for x
      using h nl fresh ne1 ne2 by (auto simp: fun_eq_iff)
    show ?thesis
      unfolding w' using False h nl ne1 ne2 l ne1[symmetric] ne2[symmetric] False[symmetric]
      by (simp add: pop_back_def iter_decr_def List_end_def get_prev_def get_next_def erase_def
          unlink_node_def set_prev_def set_next_def node_destroy_def node_deallocate_def Let_def
          hfix nfix eq ll)
  qed
qed


subsection \<open>Removal does not depend on the arenas and the environment\<close>

lemma get_next_rebase:
  "get_next (w\<lparr>storages := S, ctor_outcomes := C\<rparr>) p = get_next w p"
  by (simp add: get_next_def)

lemma get_prev_rebase:
  "get_prev (w\<lparr>storages := S, ctor_outcomes := C\<rparr>) p = get_prev w p"
  by (simp add: get_prev_def)

lemma set_next_rebase:
  "set_next p q (w\<lparr>storages := S, ctor_outcomes := C\<rparr>)
     = map_option (\<lambda>w. w\<lparr>storages := S, ctor_outcomes := C\<rparr>) (set_next p q w)"
  by (simp add: set_next_def split: option.splits)

lemma set_prev_rebase:
  "set_prev p q (w\<lparr>storages := S, ctor_outcomes := C\<rparr>)
     = map_option (\<lambda>w. w\<lparr>storages := S, ctor_outcomes := C\<rparr>) (set_prev p q w)"
  by (simp add: set_prev_def split: option.splits)

lemma unlink_node_rebase:
  "unlink_node it (w\<lparr>storages := S, ctor_outcomes := C\<rparr>)
     = map_option (\<lambda>w. w\<lparr>storages := S, ctor_outcomes := C\<rparr>) (unlink_node it w)"
  by (simp add: unlink_node_def get_next_rebase get_prev_rebase set_next_rebase set_prev_rebase
      Option.bind_map_option Option.map_option_bind o_def)

lemma node_destroy_rebase:
  "node_destroy it (w\<lparr>storages := S, ctor_outcomes := C\<rparr>)
     = map_option (\<lambda>w. w\<lparr>storages := S, ctor_outcomes := C\<rparr>) (node_destroy it w)"
  by (auto simp: node_destroy_def split: option.splits)

lemma erase_rebase:
  "erase this it (w\<lparr>storages := S, ctor_outcomes := C\<rparr>)
     = map_outcome id (\<lambda>w. w\<lparr>storages := S, ctor_outcomes := C\<rparr>) (erase this it w)"
proof (cases "unlink_node it w")
  case None
  then show ?thesis by (simp add: erase_def unlink_node_rebase)
next
  case (Some w1)
  show ?thesis
  proof (cases "node_destroy it w1")
    case None
    with Some show ?thesis by (simp add: erase_def unlink_node_rebase node_destroy_rebase)
  next
    case inner: (Some w2)
    with Some show ?thesis
      by (simp add: erase_def unlink_node_rebase node_destroy_rebase node_deallocate_def Let_def
          split: option.splits)
  qed
qed

lemma pop_back_rebase:
  "pop_back this (w\<lparr>storages := S, ctor_outcomes := C\<rparr>)
     = map_outcome id (\<lambda>w. w\<lparr>storages := S, ctor_outcomes := C\<rparr>) (pop_back this w)"
  by (simp add: pop_back_def iter_decr_def get_prev_def erase_rebase split: option.splits)

lemma pop_back_n_rebase:
  "pop_back_n this n (w\<lparr>storages := S, ctor_outcomes := C\<rparr>)
     = map_outcome id (\<lambda>w. w\<lparr>storages := S, ctor_outcomes := C\<rparr>) (pop_back_n this n w)"
proof (induction n arbitrary: w)
  case 0
  show ?case by simp
next
  case (Suc n)
  show ?case
  proof (cases "pop_back this w")
    case (Returns u w1)
    then show ?thesis using Suc.IH[of w1] by (simp add: pop_back_rebase)
  qed (simp_all add: pop_back_rebase)
qed

lemma pop_back_n_snoc:
  "pop_back_n this (Suc n) w =
     (case pop_back_n this n w of
        Undefined \<Rightarrow> Undefined
      | Throws e w' \<Rightarrow> Throws e w'
      | Returns u w' \<Rightarrow> pop_back this w')"
proof (induction n arbitrary: w)
  case 0
  show ?case by (simp split: outcome.splits)
next
  case (Suc n)
  show ?case
  proof (cases "pop_back this w")
    case (Returns u w1)
    then show ?thesis using Suc.IH[of w1] by simp
  qed simp_all
qed

lemma Destroy_from_eq_pop_back_n:
  "i \<le> sz \<Longrightarrow> Destroy_from this i sz w = pop_back_n this (unat sz - unat i) w"
proof (induction this i sz w rule: Destroy_from.induct)
  case (1 this i sz w)
  show ?case
  proof (cases "i < sz")
    case False
    with "1.prems" have "i = sz" by simp
    then show ?thesis by (simp add: Destroy_from.simps[of this sz sz])
  next
    case True
    then have lt: "unat i < unat sz" by (simp add: word_less_nat_alt)
    have "unat sz < 2 ^ LENGTH(64)" by (rule unsigned_less)
    with lt have "unat i + unat (1 :: size_t) < 2 ^ LENGTH(64)" by simp
    then have u: "unat (i + 1) = unat i + 1" by (simp only: unat_add_lem) simp
    then have le: "i + 1 \<le> sz" using lt by (simp add: word_le_nat_alt)
    have S: "unat sz - unat i = Suc (unat sz - unat (i + 1))" using u lt by simp
    show ?thesis
    proof (cases "pop_back this w")
      case (Returns x w1)
      from "1.IH"[OF True Returns le] have "Destroy_from this (i + 1) sz w1
          = pop_back_n this (unat sz - unat (i + 1)) w1" .
      with True Returns S show ?thesis by (simp add: Destroy_from.simps[of this i sz w])
    next
      case (Throws e w1)
      with True S show ?thesis by (simp add: Destroy_from.simps[of this i sz w])
    next
      case Undefined
      with True S show ?thesis by (simp add: Destroy_from.simps[of this i sz w])
    qed
  qed
qed

lemma Destroy_eq_pop_back_n: "Destroy this sz w = pop_back_n this (unat sz) w"
  using Destroy_from_eq_pop_back_n[of 0 sz this w] by (simp add: Destroy_def)






subsection \<open>Unwinding a partially filled list\<close>

lemma same_heap_iff:
  "same_heap w w' \<longleftrightarrow> w' = w\<lparr>storages := storages w', ctor_outcomes := ctor_outcomes w'\<rparr>"
  by (cases w; cases w') (auto simp: same_heap_def)

lemma InsertHelper_Throws_same_heap:
  assumes "InsertHelper L this it arg w = Throws e w'"
  shows "w' = w\<lparr>storages := storages w', ctor_outcomes := ctor_outcomes w'\<rparr>"
  using InsertHelper_Throws_unchanged[OF assms]
  by (simp add: same_heap_iff[symmetric] same_heap_def)


lemma InsertHelper_Throws_cursor:
  assumes wf: "wf_world L w" and l: "lists w this = Some l"
    and run: "InsertHelper L this it arg w = Throws e w'"
  shows "\<exists>st st'. storages w (stack_storage (node_allocator l)) = Some st
           \<and> storages w' (stack_storage (node_allocator l)) = Some st'
           \<and> unat (start_index st) \<le> unat (start_index st')"
proof -
  from InsertHelper_Throws_cases[OF run] l have
    cases: "node_allocate L (node_allocator l) w = Throws e w'
              \<or> (\<exists>p w1 w2. node_allocate L (node_allocator l) w = Returns p w1
                    \<and> node_construct L p arg w1 = Throws e w2
                    \<and> w' = node_deallocate p w2)"
    by simp
  then show ?thesis
  proof
    assume t: "node_allocate L (node_allocator l) w = Throws e w'"
    then obtain st st' where "storages w (stack_storage (node_allocator l)) = Some st"
      "allocate (capacity L) (1 * sizeof_Node L) (alignof_Node L) st = Throws e st'"
      "w' = w\<lparr>storages := (storages w)(stack_storage (node_allocator l) \<mapsto> st')\<rparr>"
      by (auto simp: node_allocate_def StackAllocator_allocate_def
          split: option.splits outcome.splits)
    moreover from this(2) have "st' = st" by (simp add: allocate_Throws_unchanged)
    ultimately show ?thesis by simp
  next
    assume "\<exists>p w1 w2. node_allocate L (node_allocator l) w = Returns p w1
                    \<and> node_construct L p arg w1 = Throws e w2
                    \<and> w' = node_deallocate p w2"
    then obtain p w1 w2 where a: "node_allocate L (node_allocator l) w = Returns p w1"
      and c: "node_construct L p arg w1 = Throws e w2" and d: "w' = node_deallocate p w2"
      by blast
    from node_allocate_fresh[OF wf a] node_construct_Throws[OF c] d
    show ?thesis by (auto simp: node_deallocate_def)
  qed
qed


lemma copy_elements_Throws:
  assumes "wf_world L w" and "tail_linked w this" and "lists w this = Some l"
    and "copy_elements fuel L this it stop count w = Some (Throws e (c, w1))"
  shows "\<exists>j st st'. c = count + of_nat j
           \<and> pop_back_n this j w1
               = Returns () (w\<lparr>storages := storages w1, ctor_outcomes := ctor_outcomes w1\<rparr>)
           \<and> lists w1 this = Some (l\<lparr>size_field := size_field l + of_nat j\<rparr>)
           \<and> storages w (stack_storage (node_allocator l)) = Some st
           \<and> storages w1 (stack_storage (node_allocator l)) = Some st'
           \<and> unat (start_index st) + j \<le> unat (start_index st')"
  using assms
proof (induction fuel arbitrary: it count w l)
  case 0
  then show ?case by simp
next
  case (Suc fuel)
  note run = Suc.prems(4)
  from run have ne: "it \<noteq> stop" by (auto split: if_splits)
  from run ne obtain v where v: "iter_deref w it = Some v" by (auto split: option.splits)
  show ?case
  proof (cases "InsertHelper L this (Head this) (Some v) w")
    case Undefined
    with run ne v show ?thesis by (simp add: push_back_def insert_value_def List_end_def)
  next
    case (Throws e' w')
    with run ne v have cw: "c = count" "w1 = w'"
      by (simp_all add: push_back_def insert_value_def List_end_def)
    from InsertHelper_Throws_same_heap[OF Throws]
    have same: "w' = w\<lparr>storages := storages w', ctor_outcomes := ctor_outcomes w'\<rparr>" .
    from InsertHelper_Throws_unchanged(2)[OF Throws] Suc.prems(3)
    have l': "lists w' this = Some l" by simp
    from InsertHelper_Throws_cursor[OF Suc.prems(1,3) Throws] obtain st st' where
      "storages w (stack_storage (node_allocator l)) = Some st"
      "storages w' (stack_storage (node_allocator l)) = Some st'"
      "unat (start_index st) \<le> unat (start_index st')" by blast
    with cw same l' show ?thesis
      by (intro exI[of _ 0] exI[of _ st] exI[of _ st']) simp
  next
    case (Returns u w')
    then have ins: "InsertHelper L this (Head this) (Some v) w = Returns () w'" by simp
    from run ne v ins obtain it' where
      rec: "copy_elements fuel L this it' stop (count + 1) w' = Some (Throws e (c, w1))"
      by (auto simp: push_back_def insert_value_def List_end_def split: option.splits)
    note wf' = InsertHelper_end_wf_world[OF Suc.prems(1,2) ins]
    note tl' = InsertHelper_end_tail_linked[OF Suc.prems(1,2) ins]
    from InsertHelper_end_Returns[OF Suc.prems(1,2) ins] Suc.prems(3) obtain st st'' where
      l': "lists w' this = Some (l\<lparr>size_field := size_field l + 1\<rparr>)"
      and st: "storages w (stack_storage (node_allocator l)) = Some st"
      and st'': "storages w' (stack_storage (node_allocator l)) = Some st''"
      and adv: "unat (start_index st) < unat (start_index st'')"
      by fastforce
    from Suc.IH[OF wf' tl' l' rec] st'' obtain j st' where
      c: "c = count + 1 + of_nat j"
      and pops: "pop_back_n this j w1
               = Returns () (w'\<lparr>storages := storages w1, ctor_outcomes := ctor_outcomes w1\<rparr>)"
      and l1: "lists w1 this = Some (l\<lparr>size_field := size_field l + 1 + of_nat j\<rparr>)"
      and st': "storages w1 (stack_storage (node_allocator l)) = Some st'"
      and bound: "unat (start_index st'') + j \<le> unat (start_index st')"
      by auto
    note undo = pop_back_after_InsertHelper_end[OF Suc.prems(1,2) ins]
    have "pop_back_n this (Suc j) w1
        = pop_back this (w'\<lparr>storages := storages w1, ctor_outcomes := ctor_outcomes w1\<rparr>)"
      unfolding pop_back_n_snoc pops by simp
    also have "\<dots> = Returns () (w\<lparr>storages := storages w1, ctor_outcomes := ctor_outcomes w1\<rparr>)"
      by (simp add: pop_back_rebase undo)
    finally have pops': "pop_back_n this (Suc j) w1
        = Returns () (w\<lparr>storages := storages w1, ctor_outcomes := ctor_outcomes w1\<rparr>)" .
    show ?thesis
      using c pops' l1 st st' adv bound
      by (intro exI[of _ "Suc j"] exI[of _ st] exI[of _ st']) (simp add: add.assoc)
  qed
qed


lemma unat_of_nat_small:
  fixes st :: size_t
  assumes "j \<le> unat st"
  shows "unat (of_nat j :: size_t) = j"
proof -
  have "unat st < 2 ^ LENGTH(64)" by (rule unsigned_less)
  with assms have "j < 2 ^ LENGTH(64)" by simp
  then show ?thesis by (simp only: unat_of_nat mod_less)
qed

lemma wf_world_List_ctor_alloc: "wf_world L w \<Longrightarrow> wf_world L (List_ctor_alloc this a w)"
  by (simp add: wf_world_def List_ctor_alloc_def)

lemma wf_world_stack_top: "wf_world L w \<Longrightarrow> wf_world L (w\<lparr>stack_top := n\<rparr>)"
  by (simp add: wf_world_def)

lemma tail_linked_List_ctor_alloc: "tail_linked (List_ctor_alloc this a w) this"
  by (simp add: tail_linked_def List_ctor_alloc_def get_next_def)

lemma List_ctor_alloc_undo:
  assumes "free_slot w this"
  shows "(List_ctor_alloc this a w)\<lparr>lists := (lists (List_ctor_alloc this a w))(this := None),
            nodes := (nodes (List_ctor_alloc this a w))(Head this := None)\<rparr> = w"
proof -
  from assms have "(lists w)(this := None) = lists w" "(nodes w)(Head this := None) = nodes w"
    by (auto simp: free_slot_def fun_eq_iff)
  then show ?thesis by (simp add: List_ctor_alloc_def)
qed

lemma List_dtor_unwound:
  assumes l: "lists w this = Some l" and n: "unat (size_field l) = n"
    and pops: "pop_back_n this n w = Returns () w0" and l0: "lists w0 this \<noteq> None"
  shows "List_dtor this w
           = Returns () (w0\<lparr>lists := (lists w0)(this := None),
                             nodes := (nodes w0)(Head this := None)\<rparr>)"
  using assms by (simp add: List_dtor_def Destroy_eq_pop_back_n)






subsection \<open>The sized constructors never leave defined behaviour\<close>

lemma InsertHelper_end_defined:
  assumes wf: "wf_world L w" and tl: "tail_linked w this" and l: "lists w this = Some l"
    and arena: "storages w (stack_storage (node_allocator l)) \<noteq> None"
  shows "InsertHelper L this (Head this) arg w \<noteq> Undefined"
proof -
  from tail_linkedD[OF tl] obtain h nl where h: "nodes w (Head this) = Some h"
    and nl: "nodes w (node_prev h) = Some nl" by blast
  from arena obtain st where st: "storages w (stack_storage (node_allocator l)) = Some st" by auto
  from wf have al0: "alignof_Node L \<noteq> 0" by (simp add: wf_world_def wf_layout_def)
  show ?thesis
  proof (cases "node_allocate L (node_allocator l) w")
    case Undefined
    with st al0 show ?thesis
      by (auto simp: node_allocate_def StackAllocator_allocate_def allocate_def Let_def
          split: outcome.splits if_splits)
  next
    case (Throws e w1)
    with l show ?thesis by (simp add: InsertHelper_def)
  next
    case (Returns p w1)
    from node_allocate_fresh[OF wf Returns] obtain k st0 st' where
      p: "p = Cell (stack_storage (node_allocator l)) k"
      and w1: "w1 = w\<lparr>storages := (storages w)(stack_storage (node_allocator l) \<mapsto> st'),
                      outstanding := p # outstanding w\<rparr>"
      and fresh: "nodes w p = None"
      by blast
    show ?thesis
    proof (cases "node_construct L p arg w1")
      case Undefined
      then show ?thesis by (simp add: node_construct_defined)
    next
      case (Throws e w2)
      with l Returns show ?thesis by (simp add: InsertHelper_def)
    next
      case inner: (Returns u w2)
      note w2 = node_construct_Returns[OF inner]
      have pne: "p \<noteq> Head this" using p by simp
      have prevne: "node_prev h \<noteq> p" using nl fresh by auto
      have h2: "nodes w2 (Head this) = Some h" using w2 w1 h pne by simp
      have P2: "nodes w2 p = Some \<lparr>node_next = Null, node_prev = Null,
          node_value = Some (case arg of None \<Rightarrow> default_T L | Some v \<Rightarrow> v)\<rparr>"
        using w2 by simp
      have nl2: "nodes w2 (node_prev h) = Some nl" using w2 w1 nl prevne by simp
      note li = link_node_end[OF h2 P2 pne nl2 prevne]
      have "lists w2 this = Some l" using w2 w1 l by simp
      with l Returns inner li show ?thesis by (simp add: InsertHelper_def)
    qed
  qed
qed




subsection \<open>Failure of a multi-element construction\<close>


lemma wf_layout_1024: "wf_layout layout_1024"
  by (simp add: wf_layout_def layout_1024_def)


lemma wf_fresh_world:
  assumes "wf_layout L"
  shows "wf_world L (fresh_world\<lparr>ctor_outcomes := bs\<rparr>)"
  using assms by (simp add: wf_world_def fresh_world_def StackStorage_init_def)

lemma push_back_Returns_wf:
  assumes "wf_world L w" and "tail_linked w this" and "push_back L this v w = Returns () w'"
  shows "wf_world L w' \<and> tail_linked w' this"
proof -
  from assms(3) have ins: "InsertHelper L this (Head this) (Some v) w = Returns () w'"
    by (simp add: push_back_def insert_value_def List_end_def)
  from InsertHelper_end_wf_world[OF assms(1,2) ins] InsertHelper_end_tail_linked[OF assms(1,2) ins]
  show ?thesis by simp
qed





section \<open>Rings\<close>

subsection \<open>Segments\<close>

lemma seg_length: "seg h p xs n vs \<Longrightarrow> length vs = length xs"
  by (induction xs arbitrary: p vs) (auto split: list.splits)

lemma seg_frame:
  "(\<And>x. x \<in> set xs \<Longrightarrow> h' x = h x) \<Longrightarrow> seg h' p xs n vs = seg h p xs n vs"
  by (induction xs arbitrary: p vs) (auto split: list.splits)

lemma seg_live: "seg h p xs n vs \<Longrightarrow> x \<in> set xs \<Longrightarrow> h x \<noteq> None"
  by (induction xs arbitrary: p vs) (auto split: list.splits)

lemma seg_Cons:
  "seg h p (x # xs) n ws \<longleftrightarrow>
     (\<exists>v vs. ws = v # vs
        \<and> h x = Some \<lparr>node_next = hd (xs @ [n]), node_prev = p, node_value = Some v\<rparr>
        \<and> seg h x xs n vs)"
  by (cases ws) auto

declare seg.simps(2) [simp del]

lemma hd_snoc2: "hd (xs @ x # y # zs) = hd (xs @ [x])"
  by (cases xs) auto

lemma seg_snoc:
  "seg h p (xs @ [x]) n ws \<longleftrightarrow>
     (\<exists>vs v. ws = vs @ [v] \<and> seg h p xs x vs
        \<and> h x = Some \<lparr>node_next = n, node_prev = last (p # xs), node_value = Some v\<rparr>)"
proof (induction xs arbitrary: p ws)
  case Nil
  show ?case by (cases ws) (auto simp: seg_Cons)
next
  case (Cons y xs)
  show ?case
  proof
    assume "seg h p ((y # xs) @ [x]) n ws"
    then obtain v0 ws' where ws: "ws = v0 # ws'"
      and y: "h y = Some \<lparr>node_next = hd (xs @ [x]), node_prev = p, node_value = Some v0\<rparr>"
      and rest: "seg h y (xs @ [x]) n ws'"
      by (auto simp: seg_Cons hd_snoc2)
    from rest Cons.IH[of y ws'] obtain vs v where ws': "ws' = vs @ [v]"
      and s: "seg h y xs x vs"
      and x: "h x = Some \<lparr>node_next = n, node_prev = last (y # xs), node_value = Some v\<rparr>"
      by auto
    have "seg h p (y # xs) x (v0 # vs)" using y s by (simp add: seg_Cons)
    with ws ws' x show "\<exists>vs v. ws = vs @ [v] \<and> seg h p (y # xs) x vs
        \<and> h x = Some \<lparr>node_next = n, node_prev = last (p # y # xs), node_value = Some v\<rparr>"
      by (intro exI[of _ "v0 # vs"] exI[of _ v]) simp
  next
    assume "\<exists>vs v. ws = vs @ [v] \<and> seg h p (y # xs) x vs
        \<and> h x = Some \<lparr>node_next = n, node_prev = last (p # y # xs), node_value = Some v\<rparr>"
    then obtain vs v where ws: "ws = vs @ [v]" and s: "seg h p (y # xs) x vs"
      and x: "h x = Some \<lparr>node_next = n, node_prev = last (p # y # xs), node_value = Some v\<rparr>"
      by blast
    from s obtain v0 vs' where vs: "vs = v0 # vs'"
      and y: "h y = Some \<lparr>node_next = hd (xs @ [x]), node_prev = p, node_value = Some v0\<rparr>"
      and rest: "seg h y xs x vs'"
      by (auto simp: seg_Cons)
    from rest x have "seg h y (xs @ [x]) n (vs' @ [v])"
      using Cons.IH[of y "vs' @ [v]"] by auto
    with y ws vs show "seg h p ((y # xs) @ [x]) n ws" by (simp add: seg_Cons hd_snoc2)
  qed
qed

lemma seg_set_prev_first:
  assumes "seg h p (y # ys) n us" and "y \<notin> set ys" and "h y = Some m"
  shows "seg (h(y \<mapsto> m\<lparr>node_prev := p'\<rparr>)) p' (y # ys) n us"
proof -
  from assms(1) obtain v vs where us: "us = v # vs"
    and y: "h y = Some \<lparr>node_next = hd (ys @ [n]), node_prev = p, node_value = Some v\<rparr>"
    and rest: "seg h y ys n vs"
    by (auto simp: seg_Cons)
  have "seg (h(y \<mapsto> m\<lparr>node_prev := p'\<rparr>)) y ys n vs = seg h y ys n vs"
    by (rule seg_frame) (use assms(2) in auto)
  with rest have "seg (h(y \<mapsto> m\<lparr>node_prev := p'\<rparr>)) y ys n vs" by simp
  with us y assms(3) show ?thesis by (simp add: seg_Cons)
qed

lemma seg_set_next_last:
  assumes "seg h p (ys @ [y]) n us" and "y \<notin> set ys" and "h y = Some m"
  shows "seg (h(y \<mapsto> m\<lparr>node_next := n'\<rparr>)) p (ys @ [y]) n' us"
proof -
  from assms(1) obtain vs v where us: "us = vs @ [v]" and rest: "seg h p ys y vs"
    and y: "h y = Some \<lparr>node_next = n, node_prev = last (p # ys), node_value = Some v\<rparr>"
    by (auto simp: seg_snoc)
  have "seg (h(y \<mapsto> m\<lparr>node_next := n'\<rparr>)) p ys y vs = seg h p ys y vs"
    by (rule seg_frame) (use assms(2) in auto)
  with rest have "seg (h(y \<mapsto> m\<lparr>node_next := n'\<rparr>)) p ys y vs" by simp
  with us y assms(3) show ?thesis by (auto simp: seg_snoc)
qed

subsection \<open>Rings and the link invariant\<close>

lemma ring_frame:
  assumes "\<And>x. x \<in> set (s # xs) \<Longrightarrow> h' x = h x"
  shows "ring h' s xs vs = ring h s xs vs"
proof -
  have "seg h' s xs s vs = seg h s xs s vs" by (rule seg_frame) (use assms in auto)
  with assms show ?thesis by (simp add: ring_def)
qed

lemma ring_live: "ring h s xs vs \<Longrightarrow> x \<in> set (s # xs) \<Longrightarrow> h x \<noteq> None"
  by (auto simp: ring_def dest: seg_live)

lemma ring_length: "ring h s xs vs \<Longrightarrow> length vs = length xs"
  by (auto simp: ring_def dest: seg_length)

lemma ring_empty:
  "ring h s [] vs \<longleftrightarrow> vs = [] \<and> h s = Some \<lparr>node_next = s, node_prev = s, node_value = None\<rparr>"
  by (auto simp: ring_def)

lemma ring_tail_linked:
  assumes "ring (nodes w) (Head this) xs vs"
  shows "tail_linked w this"
proof (cases xs rule: rev_cases)
  case Nil
  with assms show ?thesis by (simp add: ring_def tail_linked_def get_next_def)
next
  case (snoc ys y)
  with assms show ?thesis
    by (auto simp: ring_def tail_linked_def get_next_def seg_snoc)
qed


subsection \<open>Insertion at the end of a ring\<close>

lemma ring_push_back:
  assumes wf: "wf_world L w" and r: "ring (nodes w) (Head this) xs vs"
    and run: "InsertHelper L this (Head this) arg w = Returns () w'"
    and l: "lists w this = Some l"
  shows "\<exists>p. nodes w p = None
           \<and> ring (nodes w') (Head this) (xs @ [p])
                (vs @ [case arg of None \<Rightarrow> default_T L | Some v \<Rightarrow> v])
           \<and> (\<forall>q. q \<noteq> p \<longrightarrow> q \<notin> set (Head this # xs) \<longrightarrow> nodes w' q = nodes w q)
           \<and> lists w' = (lists w)(this \<mapsto> l\<lparr>size_field := size_field l + 1\<rparr>)
           \<and> stack_top w' = stack_top w
           \<and> (\<forall>s. storages w s \<noteq> None \<longrightarrow> storages w' s \<noteq> None)"
proof -
  define s where "s = Head this"
  define v where "v = (case arg of None \<Rightarrow> default_T L | Some v \<Rightarrow> v)"
  note tl = ring_tail_linked[OF r]
  from InsertHelper_end_Returns[OF wf tl run] obtain l0 h nl p k st st' where
    l0: "lists w this = Some l0" and h: "nodes w (Head this) = Some h"
    and "nodes w (node_prev h) = Some nl" and "node_next nl = Head this"
    and p: "p = Cell (stack_storage (node_allocator l0)) k" and fresh: "nodes w p = None"
    and "storages w (stack_storage (node_allocator l0)) = Some st"
    and "unat (start_index st) < unat (start_index st')" and "start_index st' \<le> capacity L"
    and "k < start_index st'"
    and w': "w' = w\<lparr>storages := (storages w)(stack_storage (node_allocator l0) \<mapsto> st'),
                    outstanding := p # outstanding w,
                    ctor_outcomes := tl (ctor_outcomes w),
                    nodes :=
                      (let N1 = (nodes w)(p \<mapsto> \<lparr>node_next = Head this, node_prev = node_prev h,
                                    node_value = Some (case arg of None \<Rightarrow> default_T L | Some v \<Rightarrow> v)\<rparr>,
                                 Head this \<mapsto> h\<lparr>node_prev := p\<rparr>)
                       in N1(node_prev h \<mapsto> (the (N1 (node_prev h)))\<lparr>node_next := p\<rparr>)),
                    lists := (lists w)(this \<mapsto> l0\<lparr>size_field := size_field l0 + 1\<rparr>)\<rparr>"
    by blast
  from l l0 have ll: "l0 = l" by simp
  have other: "lists w' = (lists w)(this \<mapsto> l\<lparr>size_field := size_field l + 1\<rparr>)"
    "stack_top w' = stack_top w" "\<forall>s. storages w s \<noteq> None \<longrightarrow> storages w' s \<noteq> None"
    unfolding w' ll by simp_all
  from r have dist: "distinct (s # xs)"
    and hs: "nodes w s = Some \<lparr>node_next = hd (xs @ [s]), node_prev = last (s # xs), node_value = None\<rparr>"
    and sg: "seg (nodes w) s xs s vs"
    by (simp_all add: ring_def s_def)
  from h hs have hval: "h = \<lparr>node_next = hd (xs @ [s]), node_prev = last (s # xs), node_value = None\<rparr>"
    by (simp add: s_def)
  have pnotin: "p \<notin> set (s # xs)"
  proof
    assume "p \<in> set (s # xs)"
    then have "nodes w p \<noteq> None" unfolding s_def by (rule ring_live[OF r])
    with fresh show False by simp
  qed
  define N1 where "N1 = (nodes w)(p \<mapsto> \<lparr>node_next = s, node_prev = last (s # xs), node_value = Some v\<rparr>,
                                 s \<mapsto> h\<lparr>node_prev := p\<rparr>)"
  have nodes': "nodes w' = N1(last (s # xs) \<mapsto> (the (N1 (last (s # xs))))\<lparr>node_next := p\<rparr>)"
    unfolding w' by (simp add: Let_def N1_def hval s_def v_def)
  have frame: "q \<noteq> p \<Longrightarrow> q \<notin> set (s # xs) \<Longrightarrow> nodes w' q = nodes w q" for q
    unfolding nodes' N1_def by (cases xs rule: rev_cases) auto
  have ring': "ring (nodes w') s (xs @ [p]) (vs @ [v])"
  proof (cases xs rule: rev_cases)
    case Nil
    with sg have "vs = []" by simp
    with Nil pnotin show ?thesis
      unfolding nodes' N1_def by (simp add: ring_def hval seg_Cons)
  next
    case (snoc ys x)
    from sg snoc obtain us u where vs: "vs = us @ [u]" and sg0: "seg (nodes w) s ys x us"
      and x: "nodes w x = Some \<lparr>node_next = s, node_prev = last (s # ys), node_value = Some u\<rparr>"
      by (auto simp: seg_snoc)
    from dist snoc pnotin have ne: "x \<noteq> s" "x \<noteq> p" "p \<noteq> s" "x \<notin> set ys" "p \<notin> set ys" "s \<notin> set ys"
      by auto
    have N1x: "N1 x = nodes w x" using ne by (simp add: N1_def)
    have "seg N1 s (ys @ [x]) s vs = seg (nodes w) s (ys @ [x]) s vs"
      by (rule seg_frame) (use ne in \<open>auto simp: N1_def\<close>)
    with sg snoc have "seg N1 s (ys @ [x]) s vs" by simp
    from seg_set_next_last[OF this ne(4), of _ p] N1x x
    have sg1: "seg (nodes w') s (ys @ [x]) p vs"
      unfolding nodes' snoc by simp
    have px: "nodes w' p = Some \<lparr>node_next = s, node_prev = x, node_value = Some v\<rparr>"
      unfolding nodes' N1_def snoc using ne by simp
    have sx: "nodes w' s = Some \<lparr>node_next = hd (ys @ [x]), node_prev = p, node_value = None\<rparr>"
      unfolding nodes' N1_def snoc using ne by (simp add: hval snoc hd_snoc2)
    have "seg (nodes w') s ((ys @ [x]) @ [p]) s (vs @ [v])"
      unfolding seg_snoc[of _ _ "ys @ [x]"] using sg1 px by simp
    then show ?thesis
      using dist pnotin sx snoc ne by (auto simp: ring_def hd_snoc2)
  qed
  from fresh ring' frame other show ?thesis unfolding s_def v_def by blast
qed


subsection \<open>Removal at the end of a ring\<close>

lemma ring_pop_back:
  assumes r: "ring (nodes w) (Head this) (xs @ [x]) (vs @ [v])" and l: "lists w this = Some l"
  shows "\<exists>w'. pop_back this w = Returns () w'
           \<and> ring (nodes w') (Head this) xs vs
           \<and> nodes w' x = None
           \<and> (\<forall>q. q \<notin> set (Head this # xs @ [x]) \<longrightarrow> nodes w' q = nodes w q)
           \<and> w' = w\<lparr>nodes := nodes w', outstanding := remove1 x (outstanding w),
                      lists := (lists w)(this \<mapsto> l\<lparr>size_field := size_field l - 1\<rparr>)\<rparr>"
proof -
  define s where "s = Head this"
  from r have dist: "distinct (s # xs @ [x])"
    and hs: "nodes w s = Some \<lparr>node_next = hd (xs @ [x]), node_prev = x, node_value = None\<rparr>"
    and sg: "seg (nodes w) s (xs @ [x]) s (vs @ [v])"
    by (simp_all add: ring_def s_def hd_snoc2)
  from sg have sg0: "seg (nodes w) s xs x vs"
    and nx: "nodes w x = Some \<lparr>node_next = s, node_prev = last (s # xs), node_value = Some v\<rparr>"
    by (auto simp: seg_snoc)
  from dist have ne: "x \<noteq> s" "x \<notin> set xs" "s \<notin> set xs" "distinct xs" by auto
  show ?thesis
  proof (cases xs rule: rev_cases)
    case Nil
    with sg0 have vs: "vs = []" by simp
    define N where "N = (nodes w)(s \<mapsto> \<lparr>node_next = s, node_prev = s, node_value = None\<rparr>, x := None)"
    have run: "pop_back this w = Returns () (w\<lparr>nodes := N, outstanding := remove1 x (outstanding w),
                      lists := (lists w)(this \<mapsto> l\<lparr>size_field := size_field l - 1\<rparr>)\<rparr>)"
      using hs nx ne l Nil
      by (simp add: pop_back_def iter_decr_def List_end_def get_prev_def get_next_def erase_def
          unlink_node_def set_prev_def set_next_def node_destroy_def node_deallocate_def Let_def
          s_def[symmetric] N_def)
    have "ring N s [] []" using ne by (simp add: ring_empty N_def)
    moreover have "N x = None" by (simp add: N_def)
    moreover have "\<forall>q. q \<notin> set (s # xs @ [x]) \<longrightarrow> N q = nodes w q" by (simp add: N_def)
    ultimately show ?thesis unfolding s_def[symmetric] using run Nil vs by simp
  next
    case (snoc ys y)
    from sg0 snoc obtain us u where vs: "vs = us @ [u]" and sg1: "seg (nodes w) s ys y us"
      and ny: "nodes w y = Some \<lparr>node_next = x, node_prev = last (s # ys), node_value = Some u\<rparr>"
      by (auto simp: seg_snoc)
    from dist snoc have ne2: "y \<noteq> s" "y \<noteq> x" "y \<notin> set ys" "x \<notin> set ys" "s \<notin> set ys" by auto
    define N where "N = (nodes w)(s \<mapsto> \<lparr>node_next = hd (xs @ [x]), node_prev = y, node_value = None\<rparr>,
          y \<mapsto> \<lparr>node_next = s, node_prev = last (s # ys), node_value = Some u\<rparr>, x := None)"
    have run: "pop_back this w = Returns () (w\<lparr>nodes := N, outstanding := remove1 x (outstanding w),
                      lists := (lists w)(this \<mapsto> l\<lparr>size_field := size_field l - 1\<rparr>)\<rparr>)"
      using hs nx ny ne ne2 l snoc ne2(1)[symmetric] ne2(2)[symmetric] ne(1)[symmetric]
      by (simp add: pop_back_def iter_decr_def List_end_def get_prev_def get_next_def erase_def
          unlink_node_def set_prev_def set_next_def node_destroy_def node_deallocate_def Let_def
          s_def[symmetric] N_def)
    have "seg N s ys y us = seg (nodes w) s ys y us"
      by (rule seg_frame) (use ne2 in \<open>auto simp: N_def\<close>)
    with sg1 have "seg N s ys y us" by simp
    moreover have "N y = Some \<lparr>node_next = s, node_prev = last (s # ys), node_value = Some u\<rparr>"
      using ne2 by (simp add: N_def)
    ultimately have "seg N s (ys @ [y]) s (us @ [u])" by (simp add: seg_snoc)
    moreover have "N s = Some \<lparr>node_next = hd (ys @ [y]), node_prev = y, node_value = None\<rparr>"
      using ne ne2 snoc by (simp add: N_def hd_snoc2)
    ultimately have "ring N s xs vs" using dist snoc vs by (simp add: ring_def hd_snoc2)
    moreover have "N x = None" by (simp add: N_def)
    moreover have "\<forall>q. q \<notin> set (s # xs @ [x]) \<longrightarrow> N q = nodes w q"
      using snoc by (simp add: N_def)
    ultimately show ?thesis unfolding s_def[symmetric] using run by simp
  qed
qed


lemma pop_back_n_ring:
  assumes "ring (nodes w) (Head this) xs vs" and "lists w this = Some l"
  shows "\<exists>w'. pop_back_n this (length xs) w = Returns () w'
           \<and> ring (nodes w') (Head this) [] []
           \<and> (\<forall>x \<in> set xs. nodes w' x = None)
           \<and> (\<forall>q. q \<notin> set (Head this # xs) \<longrightarrow> nodes w' q = nodes w q)
           \<and> lists w' = (lists w)(this \<mapsto> l\<lparr>size_field := size_field l - of_nat (length xs)\<rparr>)
           \<and> storages w' = storages w \<and> stack_top w' = stack_top w"
  using assms
proof (induction xs arbitrary: w vs l rule: rev_induct)
  case Nil
  then show ?case by (simp add: ring_empty map_upd_triv)
next
  case (snoc x xs)
  from ring_length[OF snoc.prems(1)] obtain us u where vs: "vs = us @ [u]"
    by (cases vs rule: rev_cases) auto
  from ring_pop_back[OF snoc.prems(1)[unfolded vs] snoc.prems(2)] obtain w1 where
    pop: "pop_back this w = Returns () w1"
    and r1: "ring (nodes w1) (Head this) xs us"
    and x1: "nodes w1 x = None"
    and fr1: "\<forall>q. q \<notin> set (Head this # xs @ [x]) \<longrightarrow> nodes w1 q = nodes w q"
    and w1: "w1 = w\<lparr>nodes := nodes w1, outstanding := remove1 x (outstanding w),
                      lists := (lists w)(this \<mapsto> l\<lparr>size_field := size_field l - 1\<rparr>)\<rparr>"
    by blast
  have l1: "lists w1 this = Some (l\<lparr>size_field := size_field l - 1\<rparr>)"
    by (subst w1) simp
  from snoc.IH[OF r1 l1] obtain w' where
    pops: "pop_back_n this (length xs) w1 = Returns () w'"
    and r': "ring (nodes w') (Head this) [] []"
    and dead: "\<forall>y \<in> set xs. nodes w' y = None"
    and fr': "\<forall>q. q \<notin> set (Head this # xs) \<longrightarrow> nodes w' q = nodes w1 q"
    and l': "lists w' = (lists w1)(this \<mapsto> l\<lparr>size_field := size_field l - 1\<rparr>
                \<lparr>size_field := size_field (l\<lparr>size_field := size_field l - 1\<rparr>) - of_nat (length xs)\<rparr>)"
    and st': "storages w' = storages w1" "stack_top w' = stack_top w1"
    by blast
  from snoc.prems(1) have xnot: "x \<notin> set (Head this # xs)" by (auto simp: ring_def)
  have "pop_back_n this (length (xs @ [x])) w = Returns () w'" using pop pops by simp
  moreover have "\<forall>y \<in> set (xs @ [x]). nodes w' y = None"
    using dead fr' xnot x1 by auto
  moreover have "\<forall>q. q \<notin> set (Head this # xs @ [x]) \<longrightarrow> nodes w' q = nodes w q"
    using fr' fr1 by auto
  moreover have "lists w' = (lists w)(this \<mapsto> l\<lparr>size_field := size_field l - of_nat (length (xs @ [x]))\<rparr>)"
    unfolding l' by (subst w1) (simp add: algebra_simps)
  moreover have "storages w' = storages w" "stack_top w' = stack_top w"
    unfolding st' by (subst w1, simp)+
  ultimately show ?case using r' by blast
qed

subsection \<open>Traversals of a ring\<close>

lemma forward_visit_seg:
  assumes "seg (nodes w) p xs n vs" and "n \<notin> set xs" and "length xs < fuel"
  shows "forward_visit fuel w (hd (xs @ [n])) n = Some (Returns vs ())"
  using assms
proof (induction xs arbitrary: p vs fuel)
  case Nil
  then show ?case by (cases fuel) auto
next
  case (Cons x xs)
  from Cons.prems(3) obtain f where fuel: "fuel = Suc f" and f: "length xs < f"
    by (cases fuel) auto
  from Cons.prems(1) obtain v us where vs: "vs = v # us"
    and x: "nodes w x = Some \<lparr>node_next = hd (xs @ [n]), node_prev = p, node_value = Some v\<rparr>"
    and rest: "seg (nodes w) x xs n us"
    by (auto simp: seg_Cons)
  from Cons.prems(2) have ne: "x \<noteq> n" "n \<notin> set xs" by auto
  from Cons.IH[OF rest ne(2) f] x ne(1) show ?case
    by (simp add: fuel vs iter_deref_def iter_incr_def get_next_def)
qed

lemma iter_distance_seg:
  assumes "seg (nodes w) p xs n vs" and "n \<notin> set xs" and "length xs < fuel"
  shows "iter_distance fuel w (hd (xs @ [n])) n = Some (Returns (length xs) ())"
  using assms
proof (induction xs arbitrary: p vs fuel)
  case Nil
  then show ?case by (cases fuel) auto
next
  case (Cons x xs)
  from Cons.prems(3) obtain f where fuel: "fuel = Suc f" and f: "length xs < f"
    by (cases fuel) auto
  from Cons.prems(1) obtain v us where vs: "vs = v # us"
    and x: "nodes w x = Some \<lparr>node_next = hd (xs @ [n]), node_prev = p, node_value = Some v\<rparr>"
    and rest: "seg (nodes w) x xs n us"
    by (auto simp: seg_Cons)
  from Cons.prems(2) have ne: "x \<noteq> n" "n \<notin> set xs" by auto
  from Cons.IH[OF rest ne(2) f] x ne(1) show ?case
    by (simp add: fuel vs iter_incr_def get_next_def)
qed

lemma List_elements_ring:
  assumes "ring (nodes w) (Head this) xs vs" and "length xs < fuel"
  shows "List_elements fuel w this = Some (Returns vs ())"
proof -
  from assms(1) have "seg (nodes w) (Head this) xs (Head this) vs" "Head this \<notin> set xs"
    "get_next w (Head this) = Some (hd (xs @ [Head this]))"
    by (simp_all add: ring_def get_next_def)
  with forward_visit_seg[OF this(1,2) assms(2)] show ?thesis
    by (simp add: List_elements_def List_begin_def List_end_def)
qed

lemma List_distance_ring:
  assumes "ring (nodes w) (Head this) xs vs" and "length xs < fuel"
  shows "List_distance fuel w this = Some (Returns (length xs) ())"
proof -
  from assms(1) have "seg (nodes w) (Head this) xs (Head this) vs" "Head this \<notin> set xs"
    "get_next w (Head this) = Some (hd (xs @ [Head this]))"
    by (simp_all add: ring_def get_next_def)
  with iter_distance_seg[OF this(1,2) assms(2)] show ?thesis
    by (simp add: List_distance_def List_begin_def List_end_def)
qed

subsection \<open>Copying a ring\<close>

lemma copy_elements_ring:
  assumes "wf_world L w"
    and "seg (nodes w) p xs stop vs" and "stop \<notin> set xs"
    and "ring (nodes w) (Head t) ys us" and "lists w t = Some lt"
    and "storages w (stack_storage (node_allocator lt)) \<noteq> None"
    and "set xs \<inter> set (Head t # ys) = {}"
  shows "(fuel \<le> length xs \<and> copy_elements fuel L t (hd (xs @ [stop])) stop count w = None)
       \<or> (\<exists>e cw. copy_elements fuel L t (hd (xs @ [stop])) stop count w = Some (Throws e cw))
       \<or> (\<exists>c w' zs. copy_elements fuel L t (hd (xs @ [stop])) stop count w
                        = Some (Returns () (c, w'))
            \<and> ring (nodes w') (Head t) (ys @ zs) (us @ vs)
            \<and> length zs = length xs
            \<and> (\<forall>z \<in> set zs. nodes w z = None)
            \<and> (\<forall>q. q \<notin> set zs \<longrightarrow> q \<notin> set (Head t # ys) \<longrightarrow> nodes w' q = nodes w q)
            \<and> lists w' = (lists w)(t \<mapsto> lt\<lparr>size_field := size_field lt + of_nat (length xs)\<rparr>)
            \<and> wf_world L w' \<and> stack_top w' = stack_top w
            \<and> (\<forall>s. storages w s \<noteq> None \<longrightarrow> storages w' s \<noteq> None))"
  using assms
proof (induction xs arbitrary: fuel p vs ys us w count lt)
  case Nil
  then have "vs = []" by simp
  then show ?case using Nil.prems(1,4) by (cases fuel) (auto simp: map_upd_triv Nil.prems(5))
next
  case (Cons x xs)
  show ?case
  proof (cases fuel)
    case 0
    then show ?thesis by simp
  next
    case (Suc f)
    from Cons.prems(2) obtain v vs' where vs: "vs = v # vs'"
      and x: "nodes w x = Some \<lparr>node_next = hd (xs @ [stop]), node_prev = p, node_value = Some v\<rparr>"
      and rest: "seg (nodes w) x xs stop vs'"
      by (auto simp: seg_Cons)
    from Cons.prems(3) have ne: "x \<noteq> stop" "stop \<notin> set xs" by auto
    note tl = ring_tail_linked[OF Cons.prems(4)]
    have deref: "iter_deref w x = Some v" using x by (simp add: iter_deref_def)
    show ?thesis
    proof (cases "InsertHelper L t (Head t) (Some v) w")
      case Undefined
      with InsertHelper_end_defined[OF Cons.prems(1) tl Cons.prems(5,6)] show ?thesis by simp
    next
      case (Throws e w1)
      with ne deref show ?thesis
        by (simp add: Suc push_back_def insert_value_def List_end_def)
    next
      case (Returns u w1)
      then have ins: "InsertHelper L t (Head t) (Some v) w = Returns () w1" by simp
      from ring_push_back[OF Cons.prems(1,4) ins Cons.prems(5)] obtain p' where
        fresh: "nodes w p' = None"
        and r1: "ring (nodes w1) (Head t) (ys @ [p']) (us @ [v])"
        and fr1: "\<forall>q. q \<noteq> p' \<longrightarrow> q \<notin> set (Head t # ys) \<longrightarrow> nodes w1 q = nodes w q"
        and l1: "lists w1 = (lists w)(t \<mapsto> lt\<lparr>size_field := size_field lt + 1\<rparr>)"
        and top1: "stack_top w1 = stack_top w"
        and sto1: "\<forall>s. storages w s \<noteq> None \<longrightarrow> storages w1 s \<noteq> None"
        by auto
      note wf1 = InsertHelper_end_wf_world[OF Cons.prems(1) tl ins]
      have live_xs: "y \<in> set (x # xs) \<Longrightarrow> nodes w y \<noteq> None" for y
        using seg_live[OF Cons.prems(2)] by simp
      have p'notin: "p' \<notin> set (x # xs)"
      proof
        assume "p' \<in> set (x # xs)"
        from live_xs[OF this] fresh show False by simp
      qed
      have same: "y \<in> set (x # xs) \<Longrightarrow> nodes w1 y = nodes w y" for y
        using fr1 p'notin Cons.prems(7) by auto
      have x1: "nodes w1 x = nodes w x" using same by simp
      have incr: "iter_incr w1 x = Some (hd (xs @ [stop]))"
        using x x1 by (simp add: iter_incr_def get_next_def)
      have "seg (nodes w1) x xs stop vs' = seg (nodes w) x xs stop vs'"
        by (rule seg_frame) (use same in auto)
      with rest have rest1: "seg (nodes w1) x xs stop vs'" by simp
      have lt1: "lists w1 t = Some (lt\<lparr>size_field := size_field lt + 1\<rparr>)" using l1 by simp
      have ar1: "storages w1 (stack_storage (node_allocator (lt\<lparr>size_field := size_field lt + 1\<rparr>)))
                   \<noteq> None"
        using sto1 Cons.prems(6) by simp
      have disj1: "set xs \<inter> set (Head t # ys @ [p']) = {}"
        using Cons.prems(7) p'notin by auto
      have unfold: "copy_elements fuel L t (hd ((x # xs) @ [stop])) stop count w
                      = copy_elements f L t (hd (xs @ [stop])) stop (count + 1) w1"
        using ne deref ins incr by (simp add: Suc push_back_def insert_value_def List_end_def)
      note IH = Cons.IH[OF wf1 rest1 ne(2) r1 lt1 ar1 disj1, of f "count + 1"]
      from IH show ?thesis
      proof (elim disjE exE conjE)
        assume "f \<le> length xs"
          "copy_elements f L t (hd (xs @ [stop])) stop (count + 1) w1 = None"
        then show ?thesis unfolding unfold by (simp add: Suc)
      next
        fix e cw
        assume "copy_elements f L t (hd (xs @ [stop])) stop (count + 1) w1 = Some (Throws e cw)"
        then show ?thesis unfolding unfold by simp
      next
        fix c w' zs
        assume run: "copy_elements f L t (hd (xs @ [stop])) stop (count + 1) w1
                        = Some (Returns () (c, w'))"
          and r': "ring (nodes w') (Head t) ((ys @ [p']) @ zs) ((us @ [v]) @ vs')"
          and len: "length zs = length xs"
          and fz: "\<forall>z \<in> set zs. nodes w1 z = None"
          and fr': "\<forall>q. q \<notin> set zs \<longrightarrow> q \<notin> set (Head t # ys @ [p']) \<longrightarrow> nodes w' q = nodes w1 q"
          and l': "lists w' = (lists w1)(t \<mapsto> lt\<lparr>size_field := size_field lt + 1\<rparr>
                     \<lparr>size_field := size_field (lt\<lparr>size_field := size_field lt + 1\<rparr>)
                        + of_nat (length xs)\<rparr>)"
          and wf': "wf_world L w'" and top': "stack_top w' = stack_top w1"
          and sto': "\<forall>s. storages w1 s \<noteq> None \<longrightarrow> storages w' s \<noteq> None"
        have live1: "nodes w q \<noteq> None \<Longrightarrow> nodes w1 q \<noteq> None" for q
        proof (cases "q \<in> set (Head t # ys)")
          case True
          then have "q \<in> set (Head t # ys @ [p'])" by auto
          then show ?thesis using ring_live[OF r1] by blast
        next
          case False
          assume "nodes w q \<noteq> None"
          with fresh have "q \<noteq> p'" by auto
          with False fr1 \<open>nodes w q \<noteq> None\<close> show ?thesis by simp
        qed
        have fz': "\<forall>z \<in> set (p' # zs). nodes w z = None"
        proof
          fix z assume z: "z \<in> set (p' # zs)"
          show "nodes w z = None"
          proof (cases "z = p'")
            case True
            with fresh show ?thesis by simp
          next
            case False
            with z fz have "nodes w1 z = None" by simp
            with live1[of z] show ?thesis by (cases "nodes w z") auto
          qed
        qed
        have fr: "\<forall>q. q \<notin> set (p' # zs) \<longrightarrow> q \<notin> set (Head t # ys) \<longrightarrow> nodes w' q = nodes w q"
          using fr' fr1 by auto
        have l'': "lists w' = (lists w)(t \<mapsto> lt\<lparr>size_field := size_field lt
                       + of_nat (length (x # xs))\<rparr>)"
          unfolding l' l1 by (simp add: algebra_simps)
        have "ring (nodes w') (Head t) (ys @ (p' # zs)) (us @ vs)" using r' vs by simp
        moreover have "length (p' # zs) = length (x # xs)" using len by simp
        ultimately show ?thesis
          unfolding unfold using run fz' fr l'' wf' top' top1 sto' sto1
          by (intro disjI2 exI[of _ c] exI[of _ w'] exI[of _ "p' # zs"]) auto
      qed
    qed
  qed
qed


subsection \<open>Swapping two rings\<close>

lemma swap_members:
  assumes "a \<noteq> b" and "lists w a = Some la" and "lists w b = Some lb"
  shows "swap_member alloc alloc_update a b w \<bind>
           (\<lambda>w1. swap_member size_field size_field_update a b w1 \<bind>
              (\<lambda>w2. swap_member node_allocator node_allocator_update a b w2 \<bind> K))
         = K (w\<lparr>lists := (lists w)(a \<mapsto> lb, b \<mapsto> la)\<rparr>)"
proof -
  have eqs: "la\<lparr>alloc := alloc lb, size_field := size_field lb, node_allocator := node_allocator lb\<rparr> = lb"
    "lb\<lparr>alloc := alloc la, size_field := size_field la, node_allocator := node_allocator la\<rparr> = la"
    by simp_all
  have "swap_member alloc alloc_update a b w \<bind>
           (\<lambda>w1. swap_member size_field size_field_update a b w1 \<bind>
              (\<lambda>w2. swap_member node_allocator node_allocator_update a b w2 \<bind> K))
         = K (w\<lparr>lists := (lists w)
             (a \<mapsto> la\<lparr>alloc := alloc lb, size_field := size_field lb,
                         node_allocator := node_allocator lb\<rparr>,
              b \<mapsto> lb\<lparr>alloc := alloc la, size_field := size_field la,
                         node_allocator := node_allocator la\<rparr>)\<rparr>)"
    using assms by (simp add: swap_member_def fun_upd_twist)
  then show ?thesis unfolding eqs .
qed

lemma swap_heads_Some:
  assumes "a \<noteq> b" and "nodes w (Head a) = Some ha" and "nodes w (Head b) = Some hb"
  shows "swap_heads a b w = Some (w\<lparr>nodes := (nodes w)
           (Head a \<mapsto> ha\<lparr>node_next := node_next hb, node_prev := node_prev hb\<rparr>,
            Head b \<mapsto> hb\<lparr>node_next := node_next ha, node_prev := node_prev ha\<rparr>)\<rparr>)"
  using assms by (simp add: swap_heads_def)

lemma swap_prev_fields_Some:
  assumes "nodes w p = Some P" and "nodes w q = Some Q"
  shows "swap_prev_fields p q w = Some (w\<lparr>nodes :=
           (let N1 = (nodes w)(p \<mapsto> P\<lparr>node_prev := node_prev Q\<rparr>)
            in N1(q \<mapsto> (the (N1 q))\<lparr>node_prev := node_prev P\<rparr>))\<rparr>)"
  using assms by (cases "p = q") (simp_all add: swap_prev_fields_def get_prev_def set_prev_def Let_def)

lemma swap_next_fields_Some:
  assumes "nodes w p = Some P" and "nodes w q = Some Q"
  shows "swap_next_fields p q w = Some (w\<lparr>nodes :=
           (let N1 = (nodes w)(p \<mapsto> P\<lparr>node_next := node_next Q\<rparr>)
            in N1(q \<mapsto> (the (N1 q))\<lparr>node_next := node_next P\<rparr>))\<rparr>)"
  using assms by (cases "p = q") (simp_all add: swap_next_fields_def get_next_def set_next_def Let_def)

lemma Swap_empty_rings:
  assumes ra: "ring (nodes w) (Head a) [] vs" and rb: "ring (nodes w) (Head b) [] us"
    and ne: "a \<noteq> b" and la: "lists w a = Some la" and lb: "lists w b = Some lb"
  shows "Swap a b w = Some (w\<lparr>lists := (lists w)(a \<mapsto> lb, b \<mapsto> la)\<rparr>)"
proof -
  from ra rb have ha: "nodes w (Head a) = Some \<lparr>node_next = Head a, node_prev = Head a, node_value = None\<rparr>"
    and hb: "nodes w (Head b) = Some \<lparr>node_next = Head b, node_prev = Head b, node_value = None\<rparr>"
    by (simp_all add: ring_empty)
  define w3 where "w3 = w\<lparr>lists := (lists w)(a \<mapsto> lb, b \<mapsto> la)\<rparr>"
  have n3: "nodes w3 = nodes w" by (simp add: w3_def)
  have N: "(nodes w)(Head a \<mapsto> \<lparr>node_next = Head a, node_prev = Head a, node_value = None\<rparr>,
                     Head b \<mapsto> \<lparr>node_next = Head b, node_prev = Head b, node_value = None\<rparr>) = nodes w"
    using ha hb by (auto simp: fun_eq_iff)
  have "Swap a b w = (swap_heads a b w3 \<bind> (\<lambda>w4. get_next w4 (Head a) \<bind> (\<lambda>x.
           get_next w4 (Head b) \<bind> (\<lambda>y. swap_prev_fields x y w4 \<bind> (\<lambda>w5.
           get_prev w5 (Head a) \<bind> (\<lambda>c. get_prev w5 (Head b) \<bind> (\<lambda>d.
           swap_next_fields c d w5)))))))"
    using swap_members[OF ne la lb] by (simp add: Swap_def w3_def)
  also have "\<dots> = Some w3"
    using ne ha hb N
    by (simp add: swap_heads_def get_next_def get_prev_def swap_prev_fields_def
        swap_next_fields_def set_prev_def set_next_def n3 fun_upd_twist[of "Head a" "Head b"])
  finally show ?thesis by (simp add: w3_def)
qed


lemma Swap_nonempty_rings:
  assumes ra: "ring (nodes w) (Head a) xs vs" and rb: "ring (nodes w) (Head b) ys us"
    and disj: "set (Head a # xs) \<inter> set (Head b # ys) = {}"
    and nex: "xs \<noteq> []" and ney: "ys \<noteq> []"
    and la: "lists w a = Some la" and lb: "lists w b = Some lb"
  shows "\<exists>w'. Swap a b w = Some w'
           \<and> ring (nodes w') (Head a) ys us \<and> ring (nodes w') (Head b) xs vs
           \<and> (\<forall>q. q \<notin> set (Head a # xs) \<union> set (Head b # ys) \<longrightarrow> nodes w' q = nodes w q)
           \<and> w' = w\<lparr>lists := (lists w)(a \<mapsto> lb, b \<mapsto> la), nodes := nodes w'\<rparr>"
proof -
  define sa where "sa = Head a"
  define sb where "sb = Head b"
  define h where "h = nodes w"
  from nex obtain x1 xs1 where xs_c: "xs = x1 # xs1" by (cases xs) auto
  from nex obtain xs2 xm where xs_s: "xs = xs2 @ [xm]" by (cases xs rule: rev_cases) auto
  from ney obtain y1 ys1 where ys_c: "ys = y1 # ys1" by (cases ys) auto
  from ney obtain ys2 yn where ys_s: "ys = ys2 @ [yn]" by (cases ys rule: rev_cases) auto
  from disj have ab: "a \<noteq> b" by auto
  have ends: "hd (xs @ [z]) = x1" "last (z # xs) = xm" "hd (ys @ [z]) = y1" "last (z # ys) = yn" for z
  proof -
    show "hd (xs @ [z]) = x1" by (simp add: xs_c)
    show "last (z # xs) = xm" by (simp add: xs_s)
    show "hd (ys @ [z]) = y1" by (simp add: ys_c)
    show "last (z # ys) = yn" by (simp add: ys_s)
  qed
  from ra have da: "distinct (sa # xs)" and sga: "seg h sa xs sa vs"
    and ha0: "h sa = Some \<lparr>node_next = hd (xs @ [sa]), node_prev = last (sa # xs), node_value = None\<rparr>"
    by (simp_all add: ring_def sa_def h_def)
  from ha0 have ha: "h sa = Some \<lparr>node_next = x1, node_prev = xm, node_value = None\<rparr>"
    unfolding ends .
  from rb have db: "distinct (sb # ys)" and sgb: "seg h sb ys sb us"
    and hb0: "h sb = Some \<lparr>node_next = hd (ys @ [sb]), node_prev = last (sb # ys), node_value = None\<rparr>"
    by (simp_all add: ring_def sb_def h_def)
  from hb0 have hb: "h sb = Some \<lparr>node_next = y1, node_prev = yn, node_value = None\<rparr>"
    unfolding ends .
  have mem: "x1 \<in> set xs" "xm \<in> set xs" "y1 \<in> set ys" "yn \<in> set ys"
  proof -
    show "x1 \<in> set xs" by (simp add: xs_c)
    show "xm \<in> set xs" by (simp add: xs_s)
    show "y1 \<in> set ys" by (simp add: ys_c)
    show "yn \<in> set ys" by (simp add: ys_s)
  qed
  from disj have dxy: "\<And>x y. x \<in> set xs \<Longrightarrow> y \<in> set ys \<Longrightarrow> x \<noteq> y"
    and sa_ys: "sa \<notin> set ys" and sb_xs: "sb \<notin> set xs" and sab: "sa \<noteq> sb"
    by (auto simp: sa_def sb_def)
  from da db have sa_xs: "sa \<notin> set xs" and sb_ys: "sb \<notin> set ys" by auto
  have ne: "x1 \<noteq> sa" "x1 \<noteq> sb" "xm \<noteq> sa" "xm \<noteq> sb" "y1 \<noteq> sa" "y1 \<noteq> sb" "yn \<noteq> sa" "yn \<noteq> sb"
    "x1 \<noteq> y1" "x1 \<noteq> yn" "xm \<noteq> y1" "xm \<noteq> yn"
    using mem sa_xs sb_xs sa_ys sb_ys dxy by auto
  from sga obtain X1 where X1: "h x1 = Some X1" "node_prev X1 = sa"
    by (auto simp: xs_c seg_Cons)
  from sga obtain XM where XM: "h xm = Some XM" "node_next XM = sa"
    by (auto simp: xs_s seg_snoc)
  from sgb obtain Y1 where Y1: "h y1 = Some Y1" "node_prev Y1 = sb"
    by (auto simp: ys_c seg_Cons)
  from sgb obtain YN where YN: "h yn = Some YN" "node_next YN = sb"
    by (auto simp: ys_s seg_snoc)
  define h1 where "h1 = h(sa \<mapsto> \<lparr>node_next = y1, node_prev = yn, node_value = None\<rparr>,
                           sb \<mapsto> \<lparr>node_next = x1, node_prev = xm, node_value = None\<rparr>)"
  define h2 where "h2 = h1(y1 \<mapsto> Y1\<lparr>node_prev := sa\<rparr>)"
  define h3 where "h3 = h2(x1 \<mapsto> X1\<lparr>node_prev := sb\<rparr>)"
  define YN3 where "YN3 = the (h3 yn)"
  define h4 where "h4 = h3(yn \<mapsto> YN3\<lparr>node_next := sa\<rparr>)"
  define XM4 where "XM4 = the (h4 xm)"
  define h5 where "h5 = h4(xm \<mapsto> XM4\<lparr>node_next := sb\<rparr>)"
  have h1_y1: "h1 y1 = Some Y1" and h1_x1: "h1 x1 = Some X1"
    using ne Y1 X1 by (simp_all add: h1_def)
  have h2_x1: "h2 x1 = Some X1" using h1_x1 ne by (simp add: h2_def)
  have h3_sa: "h3 sa = Some \<lparr>node_next = y1, node_prev = yn, node_value = None\<rparr>"
    and h3_sb: "h3 sb = Some \<lparr>node_next = x1, node_prev = xm, node_value = None\<rparr>"
    using ne sab by (simp_all add: h3_def h2_def h1_def)
  have h3_yn: "h3 yn = Some YN3" "node_next YN3 = sb"
    unfolding YN3_def using ne YN Y1 by (auto simp: h3_def h2_def h1_def)
  have h3_xm: "h3 xm \<noteq> None" "node_next (the (h3 xm)) = sa"
    using ne XM X1 by (auto simp: h3_def h2_def h1_def)
  have h4_xm: "h4 xm = Some XM4" "node_next XM4 = sa"
    unfolding XM4_def using ne h3_xm by (auto simp: h4_def)
  \<comment> \<open>the run\<close>
  define w3 where "w3 = w\<lparr>lists := (lists w)(a \<mapsto> lb, b \<mapsto> la)\<rparr>"
  have n3: "nodes w3 = h" by (simp add: w3_def h_def)
  have s1: "swap_heads a b w3 = Some (w3\<lparr>nodes := h1\<rparr>)"
    using swap_heads_Some[OF ab, of w3] ha hb
    by (simp add: n3 sa_def[symmetric] sb_def[symmetric] h1_def)
  have s2: "swap_prev_fields y1 x1 (w3\<lparr>nodes := h1\<rparr>) = Some (w3\<lparr>nodes := h3\<rparr>)"
    using swap_prev_fields_Some[of "w3\<lparr>nodes := h1\<rparr>" y1 Y1 x1 X1] h1_y1 h1_x1 X1 Y1 ne
    by (simp add: Let_def h2_def h3_def)
  have s3: "swap_next_fields yn xm (w3\<lparr>nodes := h3\<rparr>) = Some (w3\<lparr>nodes := h5\<rparr>)"
  proof -
    from h3_xm obtain XM3 where XM3: "h3 xm = Some XM3" "node_next XM3 = sa" by auto
    have "the (h4 xm) = XM4" by (simp add: XM4_def)
    with swap_next_fields_Some[of "w3\<lparr>nodes := h3\<rparr>" yn YN3 xm XM3] h3_yn XM3
    show ?thesis by (simp add: Let_def h4_def h5_def)
  qed
  have "Swap a b w = (swap_heads a b w3 \<bind> (\<lambda>w4. get_next w4 (Head a) \<bind> (\<lambda>x.
           get_next w4 (Head b) \<bind> (\<lambda>y. swap_prev_fields x y w4 \<bind> (\<lambda>w5.
           get_prev w5 (Head a) \<bind> (\<lambda>c. get_prev w5 (Head b) \<bind> (\<lambda>d.
           swap_next_fields c d w5)))))))"
    using swap_members[OF ab la lb] by (simp add: Swap_def w3_def)
  also have "\<dots> = Some (w3\<lparr>nodes := h5\<rparr>)"
    using s1 s2 s3 h3_sa h3_sb sab ne
    by (simp add: get_next_def get_prev_def sa_def[symmetric] sb_def[symmetric] h1_def)
  finally have run: "Swap a b w = Some (w3\<lparr>nodes := h5\<rparr>)" .
  \<comment> \<open>the ring of \<open>a\<close> now holds \<open>ys\<close>\<close>
  have "seg h1 sb ys sb us = seg h sb ys sb us"
    by (rule seg_frame) (use sa_ys sb_ys in \<open>auto simp: h1_def\<close>)
  with sgb have "seg h1 sb (y1 # ys1) sb us" by (simp add: ys_c)
  from seg_set_prev_first[OF this _ h1_y1, of sa] db
  have "seg h2 sa ys sb us" by (simp add: h2_def ys_c)
  moreover have "seg h3 sa ys sb us = seg h2 sa ys sb us"
    by (rule seg_frame) (use dxy mem in \<open>auto simp: h3_def\<close>)
  ultimately have "seg h3 sa (ys2 @ [yn]) sb us" by (simp add: ys_s)
  from seg_set_next_last[OF this _ h3_yn(1), of sa] db
  have "seg h4 sa ys sa us" by (simp add: h4_def ys_s)
  moreover have "seg h5 sa ys sa us = seg h4 sa ys sa us"
    by (rule seg_frame) (use dxy mem in \<open>auto simp: h5_def\<close>)
  ultimately have sg5a: "seg h5 sa ys sa us" by simp
  have "h5 sa = Some \<lparr>node_next = y1, node_prev = yn, node_value = None\<rparr>"
    using h3_sa ne by (simp add: h5_def h4_def)
  then have "h5 sa = Some \<lparr>node_next = hd (ys @ [sa]), node_prev = last (sa # ys), node_value = None\<rparr>"
    unfolding ends .
  moreover have "distinct (sa # ys)" using db sa_ys by simp
  ultimately have ring_a: "ring h5 sa ys us"
    using sg5a unfolding ring_def by blast
  \<comment> \<open>the ring of \<open>b\<close> now holds \<open>xs\<close>\<close>
  have "seg h2 sa xs sa vs = seg h sa xs sa vs"
    by (rule seg_frame) (use sa_xs sb_xs dxy mem in \<open>auto simp: h2_def h1_def\<close>)
  with sga have "seg h2 sa (x1 # xs1) sa vs" by (simp add: xs_c)
  from seg_set_prev_first[OF this _ h2_x1, of sb] da
  have "seg h3 sb xs sa vs" by (simp add: h3_def xs_c)
  moreover have "seg h4 sb xs sa vs = seg h3 sb xs sa vs"
    by (rule seg_frame) (use dxy mem in \<open>auto simp: h4_def\<close>)
  ultimately have "seg h4 sb (xs2 @ [xm]) sa vs" by (simp add: xs_s)
  from seg_set_next_last[OF this _ h4_xm(1), of sb] da
  have sg5b: "seg h5 sb xs sb vs" by (simp add: h5_def xs_s)
  have "h5 sb = Some \<lparr>node_next = x1, node_prev = xm, node_value = None\<rparr>"
    using h3_sb ne by (simp add: h5_def h4_def)
  then have "h5 sb = Some \<lparr>node_next = hd (xs @ [sb]), node_prev = last (sb # xs), node_value = None\<rparr>"
    unfolding ends .
  moreover have "distinct (sb # xs)" using da sb_xs by simp
  ultimately have ring_b: "ring h5 sb xs vs"
    using sg5b unfolding ring_def by blast
  have frame: "\<forall>q. q \<notin> set (Head a # xs) \<union> set (Head b # ys) \<longrightarrow> h5 q = nodes w q"
    using mem by (auto simp: h5_def h4_def h3_def h2_def h1_def h_def sa_def sb_def)
  from run ring_a ring_b frame show ?thesis
    by (simp add: w3_def sa_def sb_def)
qed

lemma Swap_rings:
  assumes ra: "ring (nodes w) (Head a) xs vs" and rb: "ring (nodes w) (Head b) ys us"
    and disj: "set (Head a # xs) \<inter> set (Head b # ys) = {}"
    and both: "xs = [] \<longleftrightarrow> ys = []"
    and la: "lists w a = Some la" and lb: "lists w b = Some lb"
  shows "\<exists>w'. Swap a b w = Some w'
           \<and> ring (nodes w') (Head a) ys us \<and> ring (nodes w') (Head b) xs vs
           \<and> (\<forall>q. q \<notin> set (Head a # xs) \<union> set (Head b # ys) \<longrightarrow> nodes w' q = nodes w q)
           \<and> w' = w\<lparr>lists := (lists w)(a \<mapsto> lb, b \<mapsto> la), nodes := nodes w'\<rparr>"
proof (cases "xs = []")
  case True
  with both have ys: "ys = []" by simp
  from ra rb True ys have vs: "vs = []" "us = []" by (simp_all add: ring_empty)
  from disj have ab: "a \<noteq> b" by auto
  from Swap_empty_rings[OF ra[unfolded True] rb[unfolded ys] ab la lb]
  have "Swap a b w = Some (w\<lparr>lists := (lists w)(a \<mapsto> lb, b \<mapsto> la)\<rparr>)" .
  moreover have "ring (nodes w) (Head a) ys us" "ring (nodes w) (Head b) xs vs"
    using ra rb True ys vs by (simp_all add: ring_empty)
  ultimately show ?thesis by simp
next
  case False
  with both have "ys \<noteq> []" by simp
  from Swap_nonempty_rings[OF ra rb disj False this la lb] show ?thesis .
qed

lemma wf_world_shrink:
  assumes "wf_world L w" and "storages w' = storages w"
    and "\<And>q. nodes w' q \<noteq> None \<Longrightarrow> nodes w q \<noteq> None"
  shows "wf_world L w'"
proof (rule wf_worldI)
  show "wf_layout L" using assms(1) by (rule wf_world_layout)
next
  fix s st assume "storages w' s = Some st"
  with assms(2) wf_world_cursor[OF assms(1)] show "start_index st \<le> capacity L" by simp
next
  fix s k assume "nodes w' (Cell s k) \<noteq> None"
  then have "nodes w (Cell s k) \<noteq> None" by (rule assms(3))
  from wf_world_cell_live[OF assms(1) this] assms(2)
  show "\<exists>st. storages w' s = Some st \<and> k < start_index st" by simp
qed

lemma List_dtor_after_copy_Throws:
  assumes wf: "wf_world L w" and tl: "tail_linked w t" and l: "lists w t = Some lt"
    and zero: "size_field lt = 0"
    and run: "copy_elements fuel L t it stop 0 w = Some (Throws e (c, w2))"
  shows "\<exists>w3. List_dtor t w2 = Returns () w3"
proof -
  from copy_elements_Throws[OF wf tl l run] obtain j st st' where
    "c = 0 + of_nat j"
    and pops: "pop_back_n t j w2
               = Returns () (w\<lparr>storages := storages w2, ctor_outcomes := ctor_outcomes w2\<rparr>)"
    and l2: "lists w2 t = Some (lt\<lparr>size_field := size_field lt + of_nat j\<rparr>)"
    and "storages w (stack_storage (node_allocator lt)) = Some st"
    and "storages w2 (stack_storage (node_allocator lt)) = Some st'"
    and bound: "unat (start_index st) + j \<le> unat (start_index st')"
    by blast
  from bound have "j \<le> unat (start_index st')" by simp
  then have "unat (of_nat j :: size_t) = j" by (rule unat_of_nat_small)
  then have uc: "unat (size_field (lt\<lparr>size_field := size_field lt + of_nat j\<rparr>)) = j"
    by (simp add: zero)
  have "List_dtor t w2
           = Returns () ((w\<lparr>storages := storages w2, ctor_outcomes := ctor_outcomes w2\<rparr>)
               \<lparr>lists := (lists (w\<lparr>storages := storages w2, ctor_outcomes := ctor_outcomes w2\<rparr>))(t := None),
                nodes := (nodes (w\<lparr>storages := storages w2, ctor_outcomes := ctor_outcomes w2\<rparr>))(Head t := None)\<rparr>)"
    by (rule List_dtor_unwound[OF l2 uc pops]) (simp add: l)
  then show ?thesis by blast
qed


subsection \<open>Self-assignment\<close>

lemma wf_listD:
  assumes "wf_list w l xs vs"
  shows "\<exists>ll. ring (nodes w) (Head l) xs vs \<and> lists w l = Some ll
           \<and> unat (size_field ll) = length xs
           \<and> storages w (stack_storage (node_allocator ll)) \<noteq> None
           \<and> storages w (stack_storage (alloc ll)) \<noteq> None"
  using assms by (auto simp: wf_list_def split: option.splits)

lemma List_assign_self:
  assumes wf: "wf_world L w" and wl: "wf_list w l xs vs" and free: "free_slot w (stack_top w)"
  shows "(fuel \<le> length xs \<and> List_assign fuel L l l w = None)
       \<or> (\<exists>e w'. List_assign fuel L l l w = Some (Throws e w'))
       \<or> (\<exists>w' ys. List_assign fuel L l l w = Some (Returns () w')
            \<and> wf_list w' l ys vs \<and> length ys = length xs
            \<and> List_size w' l = List_size w l
            \<and> wf_world L w' \<and> stack_top w' = stack_top w \<and> free_slot w' (stack_top w'))"
proof -
  from wf_listD[OF wl] obtain ll where r: "ring (nodes w) (Head l) xs vs"
    and ll: "lists w l = Some ll" and sz: "unat (size_field ll) = length xs"
    and ar_n: "storages w (stack_storage (node_allocator ll)) \<noteq> None"
    and ar_a: "storages w (stack_storage (alloc ll)) \<noteq> None"
    by blast
  define new where "new = stack_top w"
  from free have fl: "lists w new = None" and fn: "nodes w (Head new) = None"
    by (simp_all add: free_slot_def new_def)
  from ll fl have lnew: "l \<noteq> new" by auto
  define a where "a = alloc ll"
  define w1 where "w1 = List_ctor_alloc new a (w\<lparr>stack_top := Suc new\<rparr>)"
  define lnew where "lnew = \<lparr>alloc = a, size_field = 0, node_allocator = StackAllocator_convert a\<rparr>"
  have wf1: "wf_world L w1"
    unfolding w1_def using wf by (intro wf_world_List_ctor_alloc wf_world_stack_top)
  have n1: "nodes w1 = (nodes w)(Head new \<mapsto> \<lparr>node_next = Head new, node_prev = Head new,
                 node_value = None\<rparr>)"
    and l1: "lists w1 = (lists w)(new \<mapsto> lnew)" and st1: "storages w1 = storages w"
    by (simp_all add: w1_def List_ctor_alloc_def lnew_def)
  have live_r: "q \<in> set (Head l # xs) \<Longrightarrow> nodes w q \<noteq> None" for q
    using ring_live[OF r] by blast
  have new_notin: "Head new \<notin> set (Head l # xs)"
  proof
    assume "Head new \<in> set (Head l # xs)"
    from live_r[OF this] fn show False by simp
  qed
  have "ring (nodes w1) (Head l) xs vs = ring (nodes w) (Head l) xs vs"
    by (rule ring_frame) (use new_notin in \<open>auto simp: n1\<close>)
  with r have r1: "ring (nodes w1) (Head l) xs vs" by simp
  have rn1: "ring (nodes w1) (Head new) [] []" by (simp add: ring_empty n1)
  have ln1: "lists w1 new = Some lnew" by (simp add: l1)
  have arn1: "storages w1 (stack_storage (node_allocator lnew)) \<noteq> None"
    using ar_a by (simp add: st1 lnew_def a_def StackAllocator_convert_def)
  from r1 have src: "seg (nodes w1) (Head l) xs (Head l) vs" and stop: "Head l \<notin> set xs"
    and b: "List_begin w1 l = Some (hd (xs @ [Head l]))"
    by (simp_all add: ring_def List_begin_def get_next_def)
  have disj1: "set xs \<inter> set (Head new # []) = {}" using new_notin by auto
  have unfold: "List_assign fuel L l l w =
      (case copy_elements fuel L new (hd (xs @ [Head l])) (Head l) 0 w1 of
         None \<Rightarrow> None
       | Some Undefined \<Rightarrow> Some Undefined
       | Some (Throws e (count, w2)) \<Rightarrow>
           (case List_dtor new w2 of
              Undefined \<Rightarrow> Some Undefined
            | Throws e' w3 \<Rightarrow> Some (Throws e' w3)
            | Returns u w3 \<Rightarrow> Some (Throws e (w3\<lparr>stack_top := new\<rparr>)))
       | Some (Returns u (count, w2)) \<Rightarrow>
           (case Swap l new w2 of
              None \<Rightarrow> Some Undefined
            | Some w3 \<Rightarrow>
                (case List_dtor new w3 of
                   Undefined \<Rightarrow> Some Undefined
                 | Throws e' w4 \<Rightarrow> Some (Throws e' w4)
                 | Returns u' w4 \<Rightarrow> Some (Returns () (w4\<lparr>stack_top := new\<rparr>)))))"
    using ll b unfolding w1_def a_def new_def
    by (simp add: List_assign_def Let_def get_allocator_def List_end_def)
  from copy_elements_ring[OF wf1 src stop rn1 ln1 arn1 disj1, where fuel = fuel and count = 0]
  show ?thesis
  proof (elim disjE exE conjE)
    assume "fuel \<le> length xs"
      "copy_elements fuel L new (hd (xs @ [Head l])) (Head l) 0 w1 = None"
    then show ?thesis unfolding unfold by simp
  next
    fix e cw
    assume run: "copy_elements fuel L new (hd (xs @ [Head l])) (Head l) 0 w1 = Some (Throws e cw)"
    obtain c w2 where cw: "cw = (c, w2)" by (cases cw)
    have tl1: "tail_linked w1 new" unfolding w1_def by (rule tail_linked_List_ctor_alloc)
    have "size_field lnew = 0" by (simp add: lnew_def)
    from List_dtor_after_copy_Throws[OF wf1 tl1 ln1 this run[unfolded cw]]
    obtain w3 where "List_dtor new w2 = Returns () w3" by blast
    with run cw show ?thesis unfolding unfold by simp
  next
    fix c w2 zs
    assume run: "copy_elements fuel L new (hd (xs @ [Head l])) (Head l) 0 w1
                   = Some (Returns () (c, w2))"
      and rn2: "ring (nodes w2) (Head new) ([] @ zs) ([] @ vs)"
      and len: "length zs = length xs"
      and fz: "\<forall>z \<in> set zs. nodes w1 z = None"
      and fr2: "\<forall>q. q \<notin> set zs \<longrightarrow> q \<notin> set [Head new] \<longrightarrow> nodes w2 q = nodes w1 q"
      and l2: "lists w2 = (lists w1)(new \<mapsto> lnew\<lparr>size_field := size_field lnew + of_nat (length xs)\<rparr>)"
      and wf2: "wf_world L w2" and top2: "stack_top w2 = stack_top w1"
      and sto2: "\<forall>s. storages w1 s \<noteq> None \<longrightarrow> storages w2 s \<noteq> None"
    define lcopy where "lcopy = lnew\<lparr>size_field := of_nat (length xs)\<rparr>"
    have lcopy: "lnew\<lparr>size_field := size_field lnew + of_nat (length xs)\<rparr> = lcopy"
      by (simp add: lcopy_def lnew_def)
    have live1: "q \<in> set (Head l # xs) \<Longrightarrow> nodes w1 q \<noteq> None" for q
      using ring_live[OF r1] by blast
    have zs_notin: "q \<in> set (Head l # xs) \<Longrightarrow> q \<notin> set zs" for q
    proof
      assume a: "q \<in> set (Head l # xs)" and z: "q \<in> set zs"
      from fz z have "nodes w1 q = None" by (rule bspec)
      with live1[OF a] show False by (rule notE)
    qed
    have "ring (nodes w2) (Head l) xs vs = ring (nodes w1) (Head l) xs vs"
      by (rule ring_frame) (use zs_notin new_notin fr2 in auto)
    with r1 have r2: "ring (nodes w2) (Head l) xs vs" by simp
    from rn2 have rn2': "ring (nodes w2) (Head new) zs vs" by simp
    have disj2: "set (Head l # xs) \<inter> set (Head new # zs) = {}"
      using zs_notin new_notin by auto
    have both: "xs = [] \<longleftrightarrow> zs = []" using len by auto
    have ll2: "lists w2 l = Some ll" using l2 l1 ll lnew by simp
    have ln2: "lists w2 new = Some lcopy" using l2 lcopy by simp
    from Swap_rings[OF r2 rn2' disj2 both ll2 ln2] obtain w3 where
      sw: "Swap l new w2 = Some w3"
      and r3: "ring (nodes w3) (Head l) zs vs" and rn3: "ring (nodes w3) (Head new) xs vs"
      and fr3: "\<forall>q. q \<notin> set (Head l # xs) \<union> set (Head new # zs) \<longrightarrow> nodes w3 q = nodes w2 q"
      and w3: "w3 = w2\<lparr>lists := (lists w2)(l \<mapsto> lcopy, new \<mapsto> ll), nodes := nodes w3\<rparr>"
      by blast
    have ln3: "lists w3 new = Some ll" by (subst w3) simp
    have l3: "lists w3 l = Some lcopy" by (subst w3) (simp add: lnew)
    have st3: "storages w3 = storages w2" by (subst w3) simp
    from pop_back_n_ring[OF rn3 ln3] obtain w4 where
      pops: "pop_back_n new (length xs) w3 = Returns () w4"
      and rn4: "ring (nodes w4) (Head new) [] []"
      and dead4: "\<forall>x \<in> set xs. nodes w4 x = None"
      and fr4: "\<forall>q. q \<notin> set (Head new # xs) \<longrightarrow> nodes w4 q = nodes w3 q"
      and l4: "lists w4 = (lists w3)(new \<mapsto> ll\<lparr>size_field := size_field ll - of_nat (length xs)\<rparr>)"
      and st4: "storages w4 = storages w3" and top4: "stack_top w4 = stack_top w3"
      by blast
    define w5 where "w5 = w4\<lparr>lists := (lists w4)(new := None), nodes := (nodes w4)(Head new := None)\<rparr>"
    have dt: "List_dtor new w3 = Returns () w5"
      using ln3 pops by (simp add: List_dtor_def Destroy_eq_pop_back_n sz w5_def)
    define w' where "w' = w5\<lparr>stack_top := new\<rparr>"
    have res: "List_assign fuel L l l w = Some (Returns () w')"
      unfolding unfold using run sw dt by (simp add: w'_def)
    have zs_live: "q \<in> set (Head l # zs) \<Longrightarrow> q \<notin> set (Head new # xs)" for q
      using disj2 lnew stop rn2' by (auto simp: ring_def)
    have "ring (nodes w') (Head l) zs vs = ring (nodes w3) (Head l) zs vs"
      by (rule ring_frame) (use zs_live fr4 in \<open>auto simp: w'_def w5_def\<close>)
    with r3 have r': "ring (nodes w') (Head l) zs vs" by simp
    have l': "lists w' l = Some lcopy" using l4 l3 lnew by (simp add: w'_def w5_def)
    have of_sz: "of_nat (length xs) = size_field ll" using sz[symmetric] by simp
    have usz: "unat (size_field lcopy) = length xs"
      by (simp add: lcopy_def of_sz sz)
    have sto': "storages w' = storages w2" by (simp add: w'_def w5_def st4 st3)
    have live_sto: "storages w s \<noteq> None \<Longrightarrow> storages w' s \<noteq> None" for s
      using sto2 st1 sto' by simp
    have ar': "storages w' (stack_storage (node_allocator lcopy)) \<noteq> None"
      "storages w' (stack_storage (alloc lcopy)) \<noteq> None"
      using live_sto[OF ar_a]
      by (simp_all add: lcopy_def lnew_def a_def StackAllocator_convert_def)
    have wl': "wf_list w' l zs vs"
      using r' l' usz ar' len by (simp add: wf_list_def)
    from of_sz have size': "List_size w' l = List_size w l"
      using l' ll by (simp add: List_size_def lcopy_def)
    have sub3: "nodes w3 q \<noteq> None \<Longrightarrow> nodes w2 q \<noteq> None" for q
    proof (cases "q \<in> set (Head l # xs) \<union> set (Head new # zs)")
      case True
      then show ?thesis using ring_live[OF r2] ring_live[OF rn2'] by blast
    next
      case False
      with fr3 show "nodes w3 q \<noteq> None \<Longrightarrow> nodes w2 q \<noteq> None" by simp
    qed
    have sub4: "nodes w4 q \<noteq> None \<Longrightarrow> nodes w3 q \<noteq> None" for q
    proof (cases "q \<in> set (Head new # xs)")
      case True
      then show ?thesis using ring_live[OF rn3] by blast
    next
      case False
      with fr4 show "nodes w4 q \<noteq> None \<Longrightarrow> nodes w3 q \<noteq> None" by simp
    qed
    have sub': "nodes w' q \<noteq> None \<Longrightarrow> nodes w2 q \<noteq> None" for q
      using sub3[of q] sub4[of q] by (auto simp: w'_def w5_def split: if_splits)
    have wf': "wf_world L w'" by (rule wf_world_shrink[OF wf2 sto']) (rule sub')
    have top': "stack_top w' = stack_top w" by (simp add: w'_def new_def)
    have free': "free_slot w' (stack_top w')"
      by (simp add: free_slot_def w'_def w5_def)
    from res wl' len size' wf' top' free' show ?thesis by blast
  qed
qed

lemma empty_and_singleton_wf:
  assumes "empty_and_singleton = Some w"
  shows "wf_world layout_1024 w"
proof -
  define w0 where "w0 = List_ctor_alloc 1 (StackAllocator 0)
                          (List_ctor_alloc 0 (StackAllocator 0) fresh_world)"
  from wf_fresh_world[OF wf_layout_1024, of "[]"] have "wf_world layout_1024 fresh_world"
    by (simp add: fresh_world_def)
  then have wf0: "wf_world layout_1024 w0"
    unfolding w0_def by (intro wf_world_List_ctor_alloc)
  have tl0: "tail_linked w0 1" unfolding w0_def by (rule tail_linked_List_ctor_alloc)
  from assms have "push_back layout_1024 1 7 w0 = Returns () w"
    by (auto simp: empty_and_singleton_def returned_def w0_def split: outcome.splits)
  from push_back_Returns_wf[OF wf0 tl0 this] show ?thesis by simp
qed

lemma returned_Some:
  assumes "map_option (\<lambda>r. case r of Returns x s \<Rightarrow> True | Throws e s \<Rightarrow> False
                              | Undefined \<Rightarrow> False) x = Some True"
  shows "\<exists>w'. x = Some (Returns () w')"
proof -
  from assms obtain r where "x = Some r" by auto
  with assms show ?thesis by (cases r) auto
qed

text \<open>
  C10. Let \<open>l\<close> be a well-formed list of a well-formed store, with payload nodes \<open>xs\<close>
  holding the elements \<open>vs\<close> (\<open>xs\<close> and \<open>vs\<close> may be empty), and let the next place on the
  stack be free for the temporary of \<^verbatim>\<open>operator=\<close>. Then \<^verbatim>\<open>l = l\<close> never leaves defined
  behaviour, and with more fuel than \<open>l\<close> has elements its copy loop ends. If the
  assignment returns, \<open>l\<close> is again a well-formed list: its sentinel and as many payload
  nodes as before form one ring that holds the same elements \<open>vs\<close> in the same order,
  \<^verbatim>\<open>size()\<close> is what it was, a forward traversal yields \<open>vs\<close> before and after, the distance
  from \<^verbatim>\<open>begin()\<close> to \<^verbatim>\<open>end()\<close> is the number of elements, and the store is well-formed.
\<close>

theorem self_assignment_preserves_list:
  assumes "wf_world L w" and "wf_list w l xs vs" and "free_slot w (stack_top w)"
  shows "List_assign fuel L l l w \<noteq> Some Undefined
       \<and> (length xs < fuel \<longrightarrow> List_assign fuel L l l w \<noteq> None)
       \<and> (List_assign fuel L l l w = Some (Returns () w') \<longrightarrow>
            (\<exists>ys. wf_list w' l ys vs \<and> length ys = length xs)
            \<and> List_size w' l = List_size w l
            \<and> (\<forall>f. length xs < f \<longrightarrow>
                   List_elements f w l = Some (Returns vs ())
                 \<and> List_elements f w' l = Some (Returns vs ())
                 \<and> List_distance f w' l = Some (Returns (length xs) ()))
            \<and> wf_world L w')"
proof (intro conjI impI allI)
  note self = List_assign_self[OF assms, of fuel]
  from self show "List_assign fuel L l l w \<noteq> Some Undefined" by auto
  {
    assume "length xs < fuel"
    with self show "List_assign fuel L l l w \<noteq> None" by auto
  }
  assume run: "List_assign fuel L l l w = Some (Returns () w')"
  with self obtain ys where wl': "wf_list w' l ys vs" and len: "length ys = length xs"
    and sz: "List_size w' l = List_size w l" and wf': "wf_world L w'"
    by auto
  from wl' len show "\<exists>ys. wf_list w' l ys vs \<and> length ys = length xs" by blast
  from sz show "List_size w' l = List_size w l" .
  from wf' show "wf_world L w'" .
  from assms(2) have r: "ring (nodes w) (Head l) xs vs" by (simp add: wf_list_def)
  from wl' have r': "ring (nodes w') (Head l) ys vs" by (simp add: wf_list_def)
  fix f
  assume f: "length xs < f"
  from List_elements_ring[OF r f] show "List_elements f w l = Some (Returns vs ())" .
  from f len have f': "length ys < f" by simp
  from List_elements_ring[OF r' f'] show "List_elements f w' l = Some (Returns vs ())" .
  from List_distance_ring[OF r' f'] len
  show "List_distance f w' l = Some (Returns (length xs) ())" by simp
qed

theorem self_assignment_preserves_list_witness:
  "(\<exists>w w'. empty_and_singleton = Some w
        \<and> List_assign 2 layout_1024 1 1 w = Some (Returns () w')
        \<and> (\<exists>ys. wf_list w' 1 ys [7] \<and> length ys = 1)
        \<and> List_size w' 1 = Some 1
        \<and> List_elements 2 w' 1 = Some (Returns [7] ())
        \<and> List_distance 2 w' 1 = Some (Returns 1 ()))
   \<and> (\<exists>w w'. empty_and_singleton = Some w
        \<and> List_assign 1 layout_1024 0 0 w = Some (Returns () w')
        \<and> wf_list w' 0 [] []
        \<and> List_size w' 0 = Some 0
        \<and> List_elements 1 w' 0 = Some (Returns [] ())
        \<and> List_distance 1 w' 0 = Some (Returns 0 ()))"
proof -
  have "(case empty_and_singleton of None \<Rightarrow> None | Some w \<Rightarrow>
          Some (wf_list w 1 [Cell 0 0] [7], wf_list w 0 [] [], free_slot w (stack_top w),
                List_size w 1, List_size w 0,
                map_option (\<lambda>r. case r of Returns x s \<Rightarrow> True | Throws e s \<Rightarrow> False
                              | Undefined \<Rightarrow> False) (List_assign 2 layout_1024 1 1 w),
                map_option (\<lambda>r. case r of Returns x s \<Rightarrow> True | Throws e s \<Rightarrow> False
                              | Undefined \<Rightarrow> False) (List_assign 1 layout_1024 0 0 w)))
        = Some (True, True, True, Some 1, Some 0, Some True, Some True)"
    by code_simp
  then obtain w where w: "empty_and_singleton = Some w"
    and wl1: "wf_list w 1 [Cell 0 0] [7]" and wl0: "wf_list w 0 [] []"
    and free: "free_slot w (stack_top w)"
    and s1: "List_size w 1 = Some 1" and s0: "List_size w 0 = Some 0"
    and o1: "map_option (\<lambda>r. case r of Returns x s \<Rightarrow> True | Throws e s \<Rightarrow> False
                              | Undefined \<Rightarrow> False) (List_assign 2 layout_1024 1 1 w) = Some True"
    and o0: "map_option (\<lambda>r. case r of Returns x s \<Rightarrow> True | Throws e s \<Rightarrow> False
                              | Undefined \<Rightarrow> False) (List_assign 1 layout_1024 0 0 w) = Some True"
    by (auto split: option.splits)
  note wf = empty_and_singleton_wf[OF w]
  from returned_Some[OF o1] obtain w1 where
    run1: "List_assign 2 layout_1024 1 1 w = Some (Returns () w1)" by blast
  from returned_Some[OF o0] obtain w0 where
    run0: "List_assign 1 layout_1024 0 0 w = Some (Returns () w0)" by blast
  from self_assignment_preserves_list[OF wf wl1 free, where fuel = 2 and w' = w1] run1 s1
  have one: "(\<exists>ys. wf_list w1 1 ys [7] \<and> length ys = 1)
        \<and> List_size w1 1 = Some 1
        \<and> List_elements 2 w1 1 = Some (Returns [7] ())
        \<and> List_distance 2 w1 1 = Some (Returns 1 ())"
    by simp
  from self_assignment_preserves_list[OF wf wl0 free, where fuel = 1 and w' = w0] run0 s0
  have zero: "wf_list w0 0 [] []
        \<and> List_size w0 0 = Some 0
        \<and> List_elements 1 w0 0 = Some (Returns [] ())
        \<and> List_distance 1 w0 0 = Some (Returns 0 ())"
    by simp
  from w run1 one w run0 zero show ?thesis by blast
qed

end
